theory Spec2Isabelle
  imports Main "HOL-Library.Monad_Syntax"
begin

section \<open>The document tree\<close>

text \<open>
  The engine works on a browser document tree. A node is an object with an identity;
  the model gives every node a number and keeps the children of the root the code is
  working under (a template's content, a cloned fragment, a container) as a list of
  nodes. An element has a tag name, its attributes in order, and its children.
\<close>

type_synonym node_id = nat

datatype node =
    Element node_id string "(string \<times> string) list" "node list"
  | Text node_id string
  | Comment node_id string

fun nid :: "node \<Rightarrow> node_id" where
  "nid (Element i t a cs) = i"
| "nid (Text i d) = i"
| "nid (Comment i d) = i"

fun is_element :: "node \<Rightarrow> bool" where
  "is_element (Element i t a cs) = True"
| "is_element n = False"

fun is_text :: "node \<Rightarrow> bool" where
  "is_text (Text i d) = True"
| "is_text n = False"

text \<open>All nodes below a root, in document order (an element before its children).\<close>

fun nodes :: "node list \<Rightarrow> node list" where
  "nodes [] = []"
| "nodes (Element i t a cs # ns) = Element i t a cs # nodes cs @ nodes ns"
| "nodes (n # ns) = n # nodes ns"

definition ids :: "node list \<Rightarrow> node_id list" where
  "ids root = map nid (nodes root)"

text \<open>
  \<^verbatim>\<open>document.createTreeWalker(root, NodeFilter.SHOW_ELEMENT | NodeFilter.SHOW_TEXT)\<close>:
  the walker visits the element and text nodes below the root in document order;
  comments are skipped.
\<close>

fun walk :: "node list \<Rightarrow> node list" where
  "walk [] = []"
| "walk (Element i t a cs # ns) = Element i t a cs # walk cs @ walk ns"
| "walk (Text i d # ns) = Text i d # walk ns"
| "walk (Comment i d # ns) = walk ns"

text \<open>
  \<^verbatim>\<open>walker.nextNode()\<close>. A TreeWalker holds its current node (at first the root,
  \<open>None\<close> here) and finds the next one from it in the tree as it is at the time of the
  call: the first child, else the next sibling of the node or of its closest ancestor
  that has one. For a current node that is in the tree this is its successor in
  \<open>walk\<close>. A current node that has been removed from the tree has no parent and no
  sibling any more, so for a removed text node the walk is over.
\<close>

definition nextNode :: "node list \<Rightarrow> node_id option \<Rightarrow> node option" where
  "nextNode root current =
     (case current of
        None \<Rightarrow> (case walk root of [] \<Rightarrow> None | n # ns \<Rightarrow> Some n)
      | Some c \<Rightarrow>
          (case dropWhile (\<lambda>n. nid n \<noteq> c) (walk root) of
             cur # n # ns \<Rightarrow> Some n
           | _ \<Rightarrow> None))"

text \<open>
  \<^verbatim>\<open>ref.parentNode.insertBefore(new, ref)\<close>: the new nodes go immediately before the
  node \<open>ref\<close>, among its siblings.
\<close>

fun insertBefore :: "node list \<Rightarrow> node_id \<Rightarrow> node list \<Rightarrow> node list" where
  "insertBefore new ref [] = []"
| "insertBefore new ref (Element i t a cs # ns) =
     (if i = ref then new @ Element i t a cs # ns
      else Element i t a (insertBefore new ref cs) # insertBefore new ref ns)"
| "insertBefore new ref (n # ns) =
     (if nid n = ref then new @ n # ns else n # insertBefore new ref ns)"

text \<open>\<^verbatim>\<open>n.parentNode.removeChild(n)\<close>: the node leaves the tree with all below it.\<close>

fun removeChild :: "node_id \<Rightarrow> node list \<Rightarrow> node list" where
  "removeChild r [] = []"
| "removeChild r (Element i t a cs # ns) =
     (if i = r then ns else Element i t a (removeChild r cs) # removeChild r ns)"
| "removeChild r (n # ns) = (if nid n = r then ns else n # removeChild r ns)"

text \<open>A number no node below the root has: the identity of a node made next.\<close>

definition fresh :: "node list \<Rightarrow> node_id" where
  "fresh root = Suc (fold max (ids root) 0)"

section \<open>The marker protocol\<close>

definition exprMarker :: string where
  "exprMarker = ''{{}}''"

text \<open>
  \<^verbatim>\<open>s.split(exprMarker)\<close>: the pieces of \<open>s\<close> between the occurrences of the marker,
  found from the left; a string without the marker is the only piece. The marker has
  four characters.
\<close>

fun split_from :: "string \<Rightarrow> string \<Rightarrow> string list" where
  "split_from piece [] = [piece]"
| "split_from piece (c # cs) =
     (if take 4 (c # cs) = exprMarker then piece # split_from [] (drop 3 cs)
      else split_from (piece @ [c]) cs)"

definition split_marker :: "string \<Rightarrow> string list" where
  "split_marker s = split_from [] s"

section \<open>Templates and their parts\<close>

datatype part =
    AttributePart int string "string list"
  | NodePart int

fun index :: "part \<Rightarrow> int" where
  "index (AttributePart i name strings) = i"
| "index (NodePart i) = i"

fun is_attribute :: "part \<Rightarrow> bool" where
  "is_attribute (AttributePart i name strings) = True"
| "is_attribute (NodePart i) = False"

text \<open>
  A \<^verbatim>\<open>Template\<close> object: its parts and the content of its \<^verbatim>\<open>template\<close> element.
  Templates are compared by reference in the code; \<open>tid\<close> is the identity of the
  object.
\<close>

record template =
  tid :: nat
  parts :: "part list"
  content :: "node list"

subsection \<open>\<^verbatim>\<open>Template._parse\<close>\<close>

text \<open>
  The state of the loop of \<^verbatim>\<open>_parse\<close>: the content being rewritten, the walker's
  current node, \<^verbatim>\<open>index\<close>, the parts pushed so far, and the identity of the next new
  text node.
\<close>

record parse_state =
  p_content :: "node list"
  p_current :: "node_id option"
  p_index :: int
  p_parts :: "part list"
  p_next :: node_id

text \<open>The loop over the attributes of an element: a part for each value with a marker.\<close>

fun attribute_parts :: "int \<Rightarrow> (string \<times> string) list \<Rightarrow> part list" where
  "attribute_parts i [] = []"
| "attribute_parts i ((name, v) # attributes) =
     (let strings = split_marker v in
      (if length strings > 1 then [AttributePart i name strings] else [])
        @ attribute_parts i attributes)"

text \<open>
  The loop over the pieces of a text node with markers: a new literal text node before
  the node for each piece and, after each piece but the last, a new empty text node
  with a node part at the current index.
\<close>

fun split_text :: "node_id \<Rightarrow> string list \<Rightarrow> parse_state \<Rightarrow> parse_state" where
  "split_text node [] st = st"
| "split_text node (string # strings) st =
     (let st1 = st\<lparr>p_content := insertBefore [Text (p_next st) string] node (p_content st),
                   p_next := Suc (p_next st),
                   p_index := p_index st + 1\<rparr>
      in if strings \<noteq> [] then
           split_text node strings
             (st1\<lparr>p_content := insertBefore [Text (p_next st1) []] node (p_content st1),
                  p_next := Suc (p_next st1),
                  p_parts := p_parts st1 @ [NodePart (p_index st1)],
                  p_index := p_index st1 + 1\<rparr>)
         else st1)"

text \<open>The body of the loop for the node the walker has moved to.\<close>

fun parse_node :: "node \<Rightarrow> parse_state \<Rightarrow> parse_state" where
  "parse_node (Element i t attributes cs) st =
     st\<lparr>p_parts := p_parts st @ attribute_parts (p_index st) attributes\<rparr>"
| "parse_node (Text i d) st =
     (let strings = split_marker d in
      if length strings > 1 then
        (let st1 = split_text i strings st
         in st1\<lparr>p_content := removeChild i (p_content st1), p_index := p_index st1 - 1\<rparr>)
      else st)"
| "parse_node (Comment i d) st = st"

text \<open>
  \<^verbatim>\<open>while (walker.nextNode()) { index++; ... }\<close> on the tree as it is at each call.
\<close>

partial_function (option) parse_loop :: "parse_state \<Rightarrow> parse_state option" where
  "parse_loop st =
     (case nextNode (p_content st) (p_current st) of
        None \<Rightarrow> Some st
      | Some node \<Rightarrow>
          parse_loop (parse_node node (st\<lparr>p_index := p_index st + 1,
                                          p_current := Some (nid node)\<rparr>)))"

declare parse_loop.simps [code]

text \<open>
  \<^verbatim>\<open>new Template(strings)\<close>. The HTML parser of the browser is not part of the
  repository: the constructor is given the tree that \<^verbatim>\<open>innerHTML\<close> makes of the
  literal's strings joined with the marker.
\<close>

definition new_Template :: "nat \<Rightarrow> node list \<Rightarrow> template option" where
  "new_Template i html =
     map_option (\<lambda>st. \<lparr>tid = i, parts = p_parts st, content = p_content st\<rparr>)
       (parse_loop \<lparr>p_content = html, p_current = None, p_index = - 1, p_parts = [],
                    p_next = fresh html\<rparr>)"

section \<open>Values\<close>

text \<open>
  The values a template result carries. A function is modelled by its source text
  (what JavaScript's string conversion gives) and by what a call to it does: return a
  value, throw, or never return. \<open>VArray\<close> is an \<^verbatim>\<open>Array\<close> with its items. \<open>VIterable\<close>
  is any other object with \<^verbatim>\<open>Symbol.iterator\<close> (a \<^verbatim>\<open>Set\<close>, a \<^verbatim>\<open>Map\<close>, a generator object),
  given by what its string conversion returns (\<^verbatim>\<open>[object Set]\<close> for a set) and by the
  items its iteration yields, finitely many and without a throw. \<open>VOther\<close> is any other
  value that is neither callable nor iterable (a number, a plain object), given by
  what its string conversion returns. Values whose string conversion throws (a
  symbol) are not modelled.
\<close>

datatype val =
    VUndefined
  | VNull
  | VBool bool
  | VStr string
  | VOther string
  | VFun string call
  | VArray "val list"
  | VIterable string "val list"
  | VResult template "val list"
  | VFragment "node list"
and call =
    Returns val
  | Throws string
  | NeverReturns

text \<open>\<^verbatim>\<open>values[i]\<close>: \<^verbatim>\<open>undefined\<close> past the end of the array.\<close>

definition value_at :: "val list \<Rightarrow> nat \<Rightarrow> val" where
  "value_at values i = (if i < length values then values ! i else VUndefined)"

text \<open>
  JavaScript's conversion of a value to a string, as \<^verbatim>\<open>text += value\<close> applies it;
  an \<^verbatim>\<open>Array\<close> joins the strings of its items with commas, \<^verbatim>\<open>null\<close> and \<^verbatim>\<open>undefined\<close>
  items empty; a template result is an object of a class without a conversion of its
  own.
\<close>

fun join_comma :: "string list \<Rightarrow> string" where
  "join_comma [] = []"
| "join_comma [s] = s"
| "join_comma (s # ss) = s @ '','' @ join_comma ss"

fun to_string :: "val \<Rightarrow> string" where
  "to_string VUndefined = ''undefined''"
| "to_string VNull = ''null''"
| "to_string (VBool b) = (if b then ''true'' else ''false'')"
| "to_string (VStr s) = s"
| "to_string (VOther str) = str"
| "to_string (VFun src c) = src"
| "to_string (VArray items) =
     join_comma (map (\<lambda>v. if v = VUndefined \<or> v = VNull then [] else to_string v) items)"
| "to_string (VIterable str items) = str"
| "to_string (VResult t vs) = ''[object Object]''"
| "to_string (VFragment f) = ''[object DocumentFragment]''"

text \<open>
  The string the setter of \<^verbatim>\<open>textContent\<close> is given: \<^verbatim>\<open>null\<close> and \<^verbatim>\<open>undefined\<close>
  are the empty string there.
\<close>

definition text_of :: "val \<Rightarrow> string" where
  "text_of v = (if v = VUndefined \<or> v = VNull then [] else to_string v)"

text \<open>
  \<^verbatim>\<open>value && typeof value !== 'string' && value[Symbol.iterator]\<close>: the items of a value
  that \<^verbatim>\<open>update\<close> iterates over.
\<close>

fun items_of :: "val \<Rightarrow> val list option" where
  "items_of (VArray items) = Some items"
| "items_of (VIterable str items) = Some items"
| "items_of v = None"

subsection \<open>\<^verbatim>\<open>TemplateInstance.getValue\<close>\<close>

text \<open>
  \<^verbatim>\<open>while (typeof value === 'function') { try { value = value() } catch (e) {
  console.error(e); return } }\<close>. The result is the value left and what was written
  to the console; \<open>None\<close> when a call never returns.
\<close>

fun getValue :: "val \<Rightarrow> (val \<times> string list) option" where
  "getValue (VFun src (Returns v)) = getValue v"
| "getValue (VFun src (Throws e)) = Some (VUndefined, [e])"
| "getValue (VFun src NeverReturns) = None"
| "getValue v = Some (v, [])"

section \<open>Template instances\<close>

record template_instance =
  i_template :: template
  i_parts :: "(part \<times> node_id) list"
  startNode :: "node_id option"
  endNode :: "node_id option"

text \<open>
  What the code works on: the children of the root the nodes live under, the
  \<^verbatim>\<open>__templateInstance\<close> field of every node, the identity of the next node made, and
  the console.
\<close>

record state =
  tree :: "node list"
  occupant :: "node_id \<Rightarrow> template_instance option"
  next_id :: node_id
  console :: "string list"

subsection \<open>\<^verbatim>\<open>TemplateInstance._clone\<close>\<close>

text \<open>
  \<^verbatim>\<open>document.importNode(content, true)\<close>: a deep copy, every node of it a new object.
\<close>

fun importNode :: "node_id \<Rightarrow> node list \<Rightarrow> node list \<times> node_id" where
  "importNode n [] = ([], n)"
| "importNode n (Element i t a cs # ns) =
     (let (cs', n1) = importNode (Suc n) cs;
          (ns', n2) = importNode n1 ns
      in (Element n t a cs' # ns', n2))"
| "importNode n (Text i d # ns) =
     (let (ns', n1) = importNode (Suc n) ns in (Text n d # ns', n1))"
| "importNode n (Comment i d # ns) =
     (let (ns', n1) = importNode (Suc n) ns in (Comment n d # ns', n1))"

text \<open>
  \<^verbatim>\<open>while (walker.nextNode() && partIndex < parts.length) { index++; if (index ===
  part.index) { this._parts.push({part, node}); part = parts[++partIndex] } }\<close>.
  The fragment does not change during this walk, so the walker gives the nodes of
  \<open>walk\<close> one after the other; the first argument is what is left of them.
\<close>

fun clone_loop ::
  "node list \<Rightarrow> part list \<Rightarrow> int \<Rightarrow> nat \<Rightarrow> (part \<times> node_id) list \<Rightarrow> (part \<times> node_id) list"
where
  "clone_loop [] ps i partIndex pairs = pairs"
| "clone_loop (node # rest) ps i partIndex pairs =
     (if partIndex < length ps then
        (if i + 1 = index (ps ! partIndex)
         then clone_loop rest ps (i + 1) (Suc partIndex) (pairs @ [(ps ! partIndex, nid node)])
         else clone_loop rest ps (i + 1) partIndex pairs)
      else pairs)"

definition clone :: "template \<Rightarrow> state \<Rightarrow> (node list \<times> (part \<times> node_id) list) \<times> state" where
  "clone t s =
     (let (fragment, n) = importNode (next_id s) (content t);
          pairs = (if length (parts t) > 0
                   then clone_loop (walk fragment) (parts t) (- 1) 0 []
                   else [])
      in ((fragment, pairs), s\<lparr>next_id := n\<rparr>))"

text \<open>
  \<^verbatim>\<open>_getFragment\<close>: the clone between two new empty text nodes, the sentinels of a
  nested instance. The result is the instance as it is after the call and the fragment.
\<close>

definition getFragment :: "template \<Rightarrow> state \<Rightarrow> (template_instance \<times> node list) \<times> state" where
  "getFragment t s =
     (let ((fragment, pairs), s1) = clone t s;
          start = next_id s1
      in ((\<lparr>i_template = t, i_parts = pairs, startNode = Some start,
              endNode = Some (Suc start)\<rparr>,
           Text start [] # fragment @ [Text (Suc start) []]),
          s1\<lparr>next_id := Suc (Suc start)\<rparr>))"

subsection \<open>Changes to the tree\<close>

definition in_tree :: "node_id \<Rightarrow> node list \<Rightarrow> bool" where
  "in_tree i root = (i \<in> set (ids root))"

definition find_node :: "node_id \<Rightarrow> node list \<Rightarrow> node option" where
  "find_node i root = find (\<lambda>n. nid n = i) (nodes root)"

text \<open>
  \<^verbatim>\<open>node.parentNode.insertBefore(fragment, node.nextSibling)\<close>: the children of the
  fragment go immediately after the node, among its siblings.
\<close>

fun insertAfter :: "node list \<Rightarrow> node_id \<Rightarrow> node list \<Rightarrow> node list" where
  "insertAfter new ref [] = []"
| "insertAfter new ref (Element i t a cs # ns) =
     (if i = ref then Element i t a cs # new @ ns
      else Element i t a (insertAfter new ref cs) # insertAfter new ref ns)"
| "insertAfter new ref (n # ns) =
     (if nid n = ref then n # new @ ns else n # insertAfter new ref ns)"

text \<open>
  The setter of \<^verbatim>\<open>textContent\<close>: the data of a text node or comment; an element gets
  the string as its only child, a new text node (none for the empty string).
\<close>

fun set_text :: "node_id \<Rightarrow> string \<Rightarrow> node_id \<Rightarrow> node list \<Rightarrow> node list" where
  "set_text node str new [] = []"
| "set_text node str new (Element i t a cs # ns) =
     (if i = node then Element i t a (if str = [] then [] else [Text new str]) # ns
      else Element i t a (set_text node str new cs) # set_text node str new ns)"
| "set_text node str new (Text i d # ns) =
     (if i = node then Text i str # ns else Text i d # set_text node str new ns)"
| "set_text node str new (Comment i d # ns) =
     (if i = node then Comment i str # ns else Comment i d # set_text node str new ns)"

definition set_textContent :: "node_id \<Rightarrow> string \<Rightarrow> state \<Rightarrow> state" where
  "set_textContent node str s =
     s\<lparr>tree := set_text node str (next_id s) (tree s), next_id := Suc (next_id s)\<rparr>"

text \<open>
  What \<^verbatim>\<open>element.setAttribute(name, value)\<close> does to the attributes of the element: the
  value of the attribute of that name, added after the others if new.
\<close>

fun set_attr :: "string \<Rightarrow> string \<Rightarrow> (string \<times> string) list \<Rightarrow> (string \<times> string) list" where
  "set_attr name v [] = [(name, v)]"
| "set_attr name v ((n, w) # attributes) =
     (if n = name then (n, v) # attributes else (n, w) # set_attr name v attributes)"

fun put_attribute :: "node_id \<Rightarrow> string \<Rightarrow> string \<Rightarrow> node list \<Rightarrow> node list" where
  "put_attribute node name v [] = []"
| "put_attribute node name v (Element i t a cs # ns) =
     (if i = node then Element i t (set_attr name v a) cs # ns
      else Element i t a (put_attribute node name v cs) # put_attribute node name v ns)"
| "put_attribute node name v (n # ns) = n # put_attribute node name v ns"

text \<open>
  The names \<^verbatim>\<open>setAttribute\<close> takes: the DOM standard lets the method throw an
  \<^verbatim>\<open>InvalidCharacterError\<close> for a name that does not match the \<^verbatim>\<open>Name\<close> production of
  XML: a letter, \<^verbatim>\<open>:\<close> or \<^verbatim>\<open>_\<close> first, then letters, digits, \<^verbatim>\<open>:\<close>, \<^verbatim>\<open>_\<close>, \<^verbatim>\<open>-\<close>, \<^verbatim>\<open>.\<close> and
  the middle dot (here for the characters up to 255). The HTML parser makes attributes
  with other names, for one \<^verbatim>\<open>=a\<close> of \<^verbatim>\<open><div =a="1">\<close>.
\<close>

definition name_start_char :: "char \<Rightarrow> bool" where
  "name_start_char c =
     (let k = (of_char c :: nat)
      in c = CHR '':'' \<or> c = CHR ''_'' \<or> (65 \<le> k \<and> k \<le> 90) \<or> (97 \<le> k \<and> k \<le> 122) \<or>
         (192 \<le> k \<and> k \<le> 214) \<or> (216 \<le> k \<and> k \<le> 246) \<or> 248 \<le> k)"

definition name_char :: "char \<Rightarrow> bool" where
  "name_char c =
     (let k = (of_char c :: nat)
      in name_start_char c \<or> c = CHR ''-'' \<or> c = CHR ''.'' \<or> (48 \<le> k \<and> k \<le> 57) \<or> k = 183)"

fun valid_name :: "string \<Rightarrow> bool" where
  "valid_name [] = False"
| "valid_name (c # cs) = (name_start_char c \<and> list_all name_char cs)"

text \<open>
  \<^verbatim>\<open>(node as Element).setAttribute(name, value)\<close> as \<^verbatim>\<open>update\<close> calls it, without a
  check: a text node or a comment has no such method (a \<^verbatim>\<open>TypeError\<close>), and the method
  throws for a name it does not take; \<open>None\<close> for both. Otherwise the result is the tree
  with the attribute set.
\<close>

definition setAttribute :: "node_id \<Rightarrow> string \<Rightarrow> string \<Rightarrow> node list \<Rightarrow> node list option" where
  "setAttribute node name v root =
     (case find_node node root of
        Some (Text j d) \<Rightarrow> None
      | Some (Comment j d) \<Rightarrow> None
      | _ \<Rightarrow> if valid_name name then Some (put_attribute node name v root) else None)"


subsection \<open>\<^verbatim>\<open>TemplateInstance._cleanup\<close>\<close>

text \<open>
  The loop of \<^verbatim>\<open>_cleanup\<close>, at the node \<^verbatim>\<open>n\<close> it removes and the siblings after it:
  \<^verbatim>\<open>cleanupNode = cleanupNode.nextSibling; n.parentNode.removeChild(n); if
  (cleanupNode === instance._endNode) break\<close>, until there is no next sibling.
\<close>

fun remove_run :: "node_id option \<Rightarrow> node list \<Rightarrow> node list" where
  "remove_run e [] = []"
| "remove_run e [n] = []"
| "remove_run e (n # cleanupNode # ns) =
     (if Some (nid cleanupNode) = e then cleanupNode # ns
      else remove_run e (cleanupNode # ns))"

text \<open>The loop started at the node \<open>start\<close>, where it is in the tree.\<close>

fun cleanup_from :: "node_id \<Rightarrow> node_id option \<Rightarrow> node list \<Rightarrow> node list" where
  "cleanup_from start e [] = []"
| "cleanup_from start e (Element i t a cs # ns) =
     (if i = start then remove_run e (Element i t a cs # ns)
      else Element i t a (cleanup_from start e cs) # cleanup_from start e ns)"
| "cleanup_from start e (n # ns) =
     (if nid n = start then remove_run e (n # ns) else n # cleanup_from start e ns)"

text \<open>
  \<^verbatim>\<open>_cleanup(node)\<close>. The code reads \<^verbatim>\<open>instance._startNode\<close> and the parent of that
  node without a check: with no instance at the node, no start node, or a start node
  outside the tree, it throws a TypeError (\<open>None\<close>).
\<close>

definition cleanup :: "node_id \<Rightarrow> state \<Rightarrow> state option" where
  "cleanup node s =
     (case occupant s node of
        None \<Rightarrow> None
      | Some inst \<Rightarrow>
          (case startNode inst of
             None \<Rightarrow> None
           | Some start \<Rightarrow>
               if in_tree start (tree s)
               then Some (s\<lparr>tree := cleanup_from start (endNode inst) (tree s),
                            occupant := (occupant s)(node := None)\<rparr>)
               else None))"

subsection \<open>\<^verbatim>\<open>TemplateInstance.update\<close> and \<^verbatim>\<open>_renderValue\<close>\<close>

text \<open>
  The loop that builds the text of an attribute: \<^verbatim>\<open>text += strings[i]; if (i <
  strings.length - 1) text += values[valueIndex++]\<close>. The result is the text and the
  value index after the loop.
\<close>

fun attribute_text :: "string list \<Rightarrow> val list \<Rightarrow> nat \<Rightarrow> string \<Rightarrow> string \<times> nat" where
  "attribute_text [] values valueIndex text = (text, valueIndex)"
| "attribute_text (s # strings) values valueIndex text =
     (if strings \<noteq> []
      then attribute_text strings values (Suc valueIndex)
             (text @ s @ to_string (value_at values valueIndex))
      else (text @ s, valueIndex))"

text \<open>
  \<^verbatim>\<open>value instanceof TemplateResult && templateInstance._template === value.template\<close>:
  the value is a result of the very template object the instance was made from.
\<close>

fun same_template :: "template_instance \<Rightarrow> val \<Rightarrow> bool" where
  "same_template inst (VResult t vs) = (tid (i_template inst) = tid t)"
| "same_template inst v = False"

text \<open>
  The new instance of \<^verbatim>\<open>_renderValue\<close>: \<^verbatim>\<open>node.textContent = ''\<close>, a new instance
  recorded at the node, and its fragment put after the node. The parent of the node is
  read without a check: a node outside the tree throws a TypeError (\<open>None\<close>).
\<close>

definition stamp :: "template \<Rightarrow> node_id \<Rightarrow> state \<Rightarrow> (template_instance \<times> state) option" where
  "stamp t node s =
     (case getFragment t (set_textContent node [] s) of
        ((inst, fragment), s1) \<Rightarrow>
          if in_tree node (tree s1)
          then Some (inst, s1\<lparr>tree := insertAfter fragment node (tree s1),
                                occupant := (occupant s1)(node \<mapsto> inst)\<rparr>)
          else None)"

text \<open>Calling a function and reading an array give a value no larger than the function or the array.\<close>

lemma getValue_size: "getValue v = Some (r, e) \<Longrightarrow> size r \<le> size v"
  by (induction v arbitrary: r e rule: getValue.induct) auto

lemma nth_size: "i < length vs \<Longrightarrow> size (vs ! i) < size_list size vs"
proof (induction vs arbitrary: i)
  case Nil
  then show ?case by simp
next
  case (Cons a vs)
  then show ?case by (cases i) (auto simp: less_Suc_eq trans_less_add2)
qed

lemma value_at_size: "size (value_at vs i) \<le> size_list size vs"
  using nth_size[of i vs] by (auto simp: value_at_def)

lemma items_of_size: "items_of v = Some items \<Longrightarrow> size_list size items < size v"
  by (cases v) auto

lemma getValue_value_at_size:
  "getValue (value_at vs i) = Some (r, e) \<Longrightarrow> size r \<le> size_list size vs"
  using getValue_size value_at_size le_trans by blast

text \<open>
  \<open>update_parts\<close> is the loop of \<^verbatim>\<open>update(values)\<close> over the pairs of the instance,
  \<open>renderValue\<close> is \<^verbatim>\<open>_renderValue(value, node)\<close>, and \<open>render_items\<close> is the loop over
  the items of an iterable, which renders every item at a new marker appended to a
  new fragment (the tree of its state). \<open>None\<close>: the call throws or does not return.
\<close>

function update_parts :: "(part \<times> node_id) list \<Rightarrow> val list \<Rightarrow> nat \<Rightarrow> state \<Rightarrow> state option"
  and renderValue :: "val \<Rightarrow> node_id \<Rightarrow> state \<Rightarrow> state option"
  and render_items :: "val list \<Rightarrow> state \<Rightarrow> state option"
where
  "update_parts [] values valueIndex s = Some s"
| "update_parts ((AttributePart i name strings, node) # pairs) values valueIndex s =
     (case attribute_text strings values valueIndex [] of
        (text, valueIndex') \<Rightarrow>
          (case setAttribute node name text (tree s) of
             None \<Rightarrow> None
           | Some root \<Rightarrow> update_parts pairs values valueIndex' (s\<lparr>tree := root\<rparr>)))"
| "update_parts ((NodePart i, node) # pairs) values valueIndex s =
     (case getValue (value_at values valueIndex) of
        None \<Rightarrow> None
      | Some (v, errors) \<Rightarrow>
          (case (case items_of v of
                   Some items \<Rightarrow>
                     (case render_items items (s\<lparr>console := console s @ errors, tree := []\<rparr>) of
                        None \<Rightarrow> None
                      | Some sf \<Rightarrow> renderValue (VFragment (tree sf)) node (sf\<lparr>tree := tree s\<rparr>))
                 | None \<Rightarrow> renderValue v node (s\<lparr>console := console s @ errors\<rparr>)) of
             None \<Rightarrow> None
           | Some s' \<Rightarrow> update_parts pairs values (Suc valueIndex) s'))"
| "renderValue v node s =
     (let templateInstance = occupant s node in
      case (case templateInstance of
              None \<Rightarrow> Some s
            | Some inst \<Rightarrow> if \<not> same_template inst v then cleanup node s else Some s) of
        None \<Rightarrow> None
      | Some s1 \<Rightarrow>
          (case v of
             VFragment f \<Rightarrow>
               if in_tree node (tree s1)
               then Some (s1\<lparr>tree := insertAfter f node (tree s1)\<rparr>)
               else None
           | VResult t vs \<Rightarrow>
               (case (case templateInstance of
                        None \<Rightarrow> None
                      | Some inst \<Rightarrow> if tid t \<noteq> tid (i_template inst) then None else Some inst) of
                  None \<Rightarrow>
                    (case stamp t node s1 of
                       None \<Rightarrow> None
                     | Some (inst, s2) \<Rightarrow> update_parts (i_parts inst) vs 0 s2)
                | Some inst \<Rightarrow> update_parts (i_parts inst) vs 0 s1)
           | _ \<Rightarrow> Some (set_textContent node (text_of v) s1)))"
| "render_items [] s = Some s"
| "render_items (item # items) s =
     (case renderValue item (next_id s)
             (s\<lparr>tree := tree s @ [Text (next_id s) []], next_id := Suc (next_id s)\<rparr>) of
        None \<Rightarrow> None
      | Some s1 \<Rightarrow> render_items items s1)"
  by pat_completeness auto

termination update_parts
  apply (relation "inv_image (less_than <*lex*> less_than)
     (\<lambda>x. case x of
         Inl (pairs, values, valueIndex, s) \<Rightarrow> (size_list size values, Suc (length pairs))
       | Inr (Inl (v, node, s)) \<Rightarrow> (size v, 0)
       | Inr (Inr (items, s)) \<Rightarrow> (size_list size items, 0))")
                  apply simp_all
          apply (auto dest!: getValue_value_at_size items_of_size)
  done

text \<open>\<^verbatim>\<open>instance.update(values)\<close>.\<close>

definition update :: "template_instance \<Rightarrow> val list \<Rightarrow> state \<Rightarrow> state option" where
  "update inst values s = update_parts (i_parts inst) values 0 s"

text \<open>
  \<^verbatim>\<open>new TemplateInstance(template).appendTo(container, values)\<close>: the clone is updated
  as a fragment of its own and then appended to the children of the container (the
  tree of the state given).
\<close>

definition appendTo :: "template \<Rightarrow> val list \<Rightarrow> state \<Rightarrow> (template_instance \<times> state) option" where
  "appendTo t values s =
     (case clone t s of
        ((fragment, pairs), s1) \<Rightarrow>
          (case update_parts pairs values 0 (s1\<lparr>tree := fragment\<rparr>) of
             None \<Rightarrow> None
           | Some s2 \<Rightarrow>
               Some (\<lparr>i_template = t, i_parts = pairs, startNode = None, endNode = None\<rparr>,
                     s2\<lparr>tree := tree s @ tree s2\<rparr>)))"

text \<open>An empty container in a document whose nodes so far have identities below \<open>n\<close>.\<close>

definition empty_state :: "node_id \<Rightarrow> state" where
  "empty_state n = \<lparr>tree = [], occupant = (\<lambda>i. None), next_id = n, console = []\<rparr>"

section \<open>Example templates\<close>

text \<open>
  The template of the literal \<^verbatim>\<open>html`${x}`\<close>, whose HTML is the marker alone: the
  text node is split into an empty literal, the empty node of the slot and an empty
  literal.
\<close>

definition slot_template :: template where
  "slot_template = \<lparr>tid = 0, parts = [NodePart 1], content = [Text 1 [], Text 2 [], Text 3 []]\<rparr>"

lemma slot_template_compiled: "new_Template 0 [Text 0 ''{{}}''] = Some slot_template"
  unfolding slot_template_def by code_simp

text \<open>The template of \<^verbatim>\<open>html`<b>hi</b>`\<close>, without a slot.\<close>

definition bold_template :: template where
  "bold_template = \<lparr>tid = 1, parts = [], content = [Element 0 ''b'' [] [Text 1 ''hi'']]\<rparr>"

lemma bold_template_compiled:
  "new_Template 1 [Element 0 ''b'' [] [Text 1 ''hi'']] = Some bold_template"
  unfolding bold_template_def by code_simp

text \<open>
  The template of \<^verbatim>\<open>html`<b>${x}</b>`\<close>, with one slot inside the element.
\<close>

definition slot_in_bold :: template where
  "slot_in_bold =
     \<lparr>tid = 3, parts = [NodePart 2],
      content = [Element 0 ''b'' [] [Text 2 [], Text 3 [], Text 4 []]]\<rparr>"

lemma slot_in_bold_compiled:
  "new_Template 3 [Element 0 ''b'' [] [Text 1 ''{{}}'']] = Some slot_in_bold"
  unfolding slot_in_bold_def by code_simp

section \<open>Binding after cloning\<close>

text \<open>
  Claim C1 says that cloning a compiled template and walking the clone again pairs
  every part, in stored order, with the node at the part's position, one pair for each
  part. The code does not do so for \<^verbatim>\<open>html`<div a="${x}" b="${y}"></div>`\<close>: the
  compiler records two attribute parts at position 0, one for each attribute of the
  element, and the loop of \<^verbatim>\<open>_clone\<close> moves to the next node after every pair, so the
  second part is never paired. The instance has one pair for two parts, and an update
  with the values x and y leaves the attribute b with its marker.
\<close>

theorem clone_leaves_second_attribute_part_unpaired:
  "new_Template 0 [Element 0 ''div'' [(''a'', ''{{}}''), (''b'', ''{{}}'')] []] =
     Some \<lparr>tid = 0,
            parts = [AttributePart 0 ''a'' [[], []], AttributePart 0 ''b'' [[], []]],
            content = [Element 0 ''div'' [(''a'', ''{{}}''), (''b'', ''{{}}'')] []]\<rparr>
   \<and> map_option (\<lambda>(inst, s). (i_parts inst, tree s))
       (appendTo \<lparr>tid = 0,
                  parts = [AttributePart 0 ''a'' [[], []], AttributePart 0 ''b'' [[], []]],
                  content = [Element 0 ''div'' [(''a'', ''{{}}''), (''b'', ''{{}}'')] []]\<rparr>
          [VStr ''x'', VStr ''y''] (empty_state 10)) =
     Some ([(AttributePart 0 ''a'' [[], []], 10)],
           [Element 10 ''div'' [(''a'', ''x''), (''b'', ''{{}}'')] []])"
  by code_simp

section \<open>Splitting text nodes\<close>

text \<open>
  Claim C8 says that the compiler replaces every text node with markers by literal and
  placeholder nodes, records a node part for each placeholder, and goes on numbering so
  that the positions of later nodes are right. The code removes the text node the
  walker stands on, and a walker whose current node has left the tree finds no next
  node: the loop ends after the first text node with a marker. For
  \<^verbatim>\<open>html`<b>${x}</b><i>${y}</i>`\<close> the compiled template has the part of the first
  slot only, and the text of the second element is still the marker.
\<close>

theorem parse_stops_after_first_split_text_node:
  "new_Template 0 [Element 0 ''b'' [] [Text 1 ''{{}}''], Element 2 ''i'' [] [Text 3 ''{{}}'']] =
     Some \<lparr>tid = 0, parts = [NodePart 2],
            content = [Element 0 ''b'' [] [Text 4 [], Text 5 [], Text 6 []],
                       Element 2 ''i'' [] [Text 3 ''{{}}'']]\<rparr>"
  by code_simp

section \<open>Cleanup\<close>

text \<open>
  Claim C5 says that cleanup removes the whole range of a nested instance, both
  sentinels included. In the code the loop stops as soon as the next sibling is the end
  sentinel, before removing it. Here the slot of \<open>slot_template\<close> (node 101) first gets
  a result of \<open>bold_template\<close>, whose range is the start sentinel 106, the element 104
  and the end sentinel 107; the next update gives the slot a string. The start sentinel
  and the element are removed and the record of the slot is cleared, but the end
  sentinel 107 is still in the tree.
\<close>

theorem cleanup_leaves_end_sentinel:
  "(case appendTo slot_template [VResult bold_template []] (empty_state 100) of
      None \<Rightarrow> None
    | Some (inst, s) \<Rightarrow>
        map_option
          (\<lambda>s'. (map_option startNode (occupant s 101), map_option endNode (occupant s 101),
                 tree s, tree s', map_option endNode (occupant s' 101), in_tree 107 (tree s')))
          (update inst [VStr ''s''] s)) =
   Some (Some (Some 106), Some (Some 107),
         [Text 100 [], Text 101 [], Text 106 [], Element 104 ''b'' [] [Text 105 ''hi''],
          Text 107 [], Text 102 []],
         [Text 100 [], Text 101 ''s'', Text 107 [], Text 102 []],
         None, True)"
  by code_simp

section \<open>Updating twice\<close>

text \<open>
  Claim C6 says that a second update with the same values leaves the tree as the first
  made it, for every kind of value, iterables included. For an iterable the code
  inserts the nodes of the items after the anchor at every update and never removes
  those of the update before. Here the slot of \<open>slot_template\<close> is given the array of
  the one string a twice: after the first update the tree has one node for the item,
  after the second it has two.
\<close>

theorem second_update_with_iterable_adds_nodes:
  "(case appendTo slot_template [VArray [VStr ''a'']] (empty_state 100) of
      None \<Rightarrow> None
    | Some (inst, s) \<Rightarrow>
        map_option (\<lambda>s'. (tree s, tree s')) (update inst [VArray [VStr ''a'']] s)) =
   Some ([Text 100 [], Text 101 [], Text 103 ''a'', Text 102 []],
         [Text 100 [], Text 101 [], Text 105 ''a'', Text 103 ''a'', Text 102 []])"
  by code_simp

section \<open>The order of the parts\<close>

text \<open>
  One part comes before another when its position is smaller, or when both are
  attribute parts at one position (two attributes of one element).
\<close>

definition part_before :: "part \<Rightarrow> part \<Rightarrow> bool" where
  "part_before p q =
     (index p < index q \<or> (index p = index q \<and> is_attribute p \<and> is_attribute q))"

definition parts_below :: "int \<Rightarrow> part list \<Rightarrow> bool" where
  "parts_below i ps = list_all (\<lambda>p. index p < i) ps"

text \<open>
  What holds of the parts between two rounds of the loop of \<^verbatim>\<open>_parse\<close>: they are in
  order, none is beyond the current index, and every node part is below it.
\<close>

definition parse_inv :: "parse_state \<Rightarrow> bool" where
  "parse_inv st =
     (sorted_wrt part_before (p_parts st) \<and>
      list_all (\<lambda>p. index p \<le> p_index st \<and> (\<not> is_attribute p \<longrightarrow> index p < p_index st))
        (p_parts st))"

lemma part_before_less: "index p < index q \<Longrightarrow> part_before p q"
  by (simp add: part_before_def)

lemma attribute_parts_index:
  "p \<in> set (attribute_parts i attributes) \<Longrightarrow> index p = i \<and> is_attribute p"
  by (induction i attributes rule: attribute_parts.induct) (auto simp: Let_def split: if_splits)

lemma attribute_parts_sorted: "sorted_wrt part_before (attribute_parts i attributes)"
  by (induction i attributes rule: attribute_parts.induct)
     (auto simp: Let_def part_before_def dest: attribute_parts_index)

lemma split_text_parts:
  "sorted_wrt part_before (p_parts st) \<Longrightarrow> parts_below (p_index st) (p_parts st) \<Longrightarrow>
   strings \<noteq> [] \<Longrightarrow>
   sorted_wrt part_before (p_parts (split_text node strings st)) \<and>
   parts_below (p_index (split_text node strings st) - 1) (p_parts (split_text node strings st))"
proof (induction node strings st rule: split_text.induct)
  case (1 node st)
  then show ?case by simp
next
  case (2 node string strings st)
  show ?case
  proof (cases "strings = []")
    case True
    with 2 show ?thesis by (simp add: parts_below_def)
  next
    case False
    let ?st1 = "st\<lparr>p_content := insertBefore [Text (p_next st) string] node (p_content st),
                   p_next := Suc (p_next st), p_index := p_index st + 1\<rparr>"
    let ?st2 = "?st1\<lparr>p_content := insertBefore [Text (p_next ?st1) []] node (p_content ?st1),
                  p_next := Suc (p_next ?st1),
                  p_parts := p_parts ?st1 @ [NodePart (p_index ?st1)],
                  p_index := p_index ?st1 + 1\<rparr>"
    have a: "sorted_wrt part_before (p_parts ?st2)"
      using 2(2,3)
      by (fastforce simp: sorted_wrt_append parts_below_def list_all_iff intro!: part_before_less)
    have b: "parts_below (p_index ?st2) (p_parts ?st2)"
      using 2(3) by (auto simp: parts_below_def list_all_iff)
    from 2(1)[OF refl False a b False] False show ?thesis by (simp add: Let_def)
  qed
qed

lemma parse_node_inv:
  assumes "parse_inv st"
  shows "parse_inv (parse_node node (st\<lparr>p_index := p_index st + 1, p_current := c\<rparr>))"
proof (cases node)
  case (Element i t attributes cs)
  with assms show ?thesis
    by (auto simp: parse_inv_def sorted_wrt_append attribute_parts_sorted list_all_iff
          part_before_def dest!: attribute_parts_index)
next
  case (Text i d)
  let ?st = "st\<lparr>p_index := p_index st + 1, p_current := c\<rparr>"
  show ?thesis
  proof (cases "length (split_marker d) > 1")
    case True
    have "sorted_wrt part_before (p_parts ?st)" "parts_below (p_index ?st) (p_parts ?st)"
      using assms by (auto simp: parse_inv_def parts_below_def list_all_iff)
    moreover have "split_marker d \<noteq> []" using True by auto
    ultimately have "sorted_wrt part_before (p_parts (split_text i (split_marker d) ?st)) \<and>
      parts_below (p_index (split_text i (split_marker d) ?st) - 1)
        (p_parts (split_text i (split_marker d) ?st))"
      by (rule split_text_parts)
    with True Text show ?thesis
      by (auto simp: parse_inv_def Let_def parts_below_def list_all_iff)
  next
    case False
    with assms Text show ?thesis
      by (auto simp: parse_inv_def Let_def list_all_iff)
  qed
next
  case (Comment i d)
  with assms show ?thesis by (auto simp: parse_inv_def list_all_iff)
qed

lemma parse_loop_inv:
  assumes "parse_loop st = Some st'"
  shows "parse_inv st \<longrightarrow> parse_inv st'"
  using assms
proof (induction rule: parse_loop.raw_induct[rotated, consumes 1, case_names step])
  case (step parse_loop' st st')
  show ?case
  proof (cases "nextNode (p_content st) (p_current st)")
    case None
    with step show ?thesis by simp
  next
    case (Some node)
    with step(2) have "parse_loop'
        (parse_node node (st\<lparr>p_index := p_index st + 1, p_current := Some (nid node)\<rparr>)) =
      Some st'"
      by simp
    from step(1)[OF this] show ?thesis
      by (auto intro: parse_node_inv)
  qed
qed

lemma sorted_wrt_part_before_sorted:
  "sorted_wrt part_before ps \<Longrightarrow> sorted (map index ps)"
  unfolding sorted_map
  by (erule sorted_wrt_mono_rel[rotated]) (auto simp: part_before_def)

text \<open>
  Claim C2, as amended. The claim says that no two parts of a compiled template share
  a position. That fails for an element with two attributes that hold markers: each
  attribute gets a part at the position of the element. What holds for every
  template the compiler returns: the positions of the parts, in stored order, never
  decrease, and two parts at one position are both attribute parts (so every node
  part has a position of its own).
\<close>

theorem parts_in_position_order:
  assumes "new_Template i html = Some t"
  shows "sorted (map index (parts t)) \<and>
         (\<forall>j k. j < k \<and> k < length (parts t) \<and> index (parts t ! j) = index (parts t ! k) \<longrightarrow>
                is_attribute (parts t ! j) \<and> is_attribute (parts t ! k))"
proof -
  from assms obtain st where
    st: "parse_loop \<lparr>p_content = html, p_current = None, p_index = - 1, p_parts = [],
                      p_next = fresh html\<rparr> = Some st"
    and t: "parts t = p_parts st"
    by (auto simp: new_Template_def)
  have "parse_inv st"
    using parse_loop_inv[OF st] by (simp add: parse_inv_def)
  then have s: "sorted_wrt part_before (parts t)"
    by (simp add: parse_inv_def t)
  then have "sorted (map index (parts t))"
    by (rule sorted_wrt_part_before_sorted)
  moreover have "is_attribute (parts t ! j) \<and> is_attribute (parts t ! k)"
    if "j < k" "k < length (parts t)" "index (parts t ! j) = index (parts t ! k)" for j k
    using sorted_wrt_nth_less[OF s that(1,2)] that(3) by (simp add: part_before_def)
  ultimately show ?thesis by blast
qed

text \<open>
  The template of \<^verbatim>\<open>html`<div a="${x}" b="${y}"></div>`\<close>: its two parts are in order,
  they share position 0, and both are attribute parts.
\<close>

definition two_attribute_template :: template where
  "two_attribute_template =
     \<lparr>tid = 0,
      parts = [AttributePart 0 ''a'' [[], []], AttributePart 0 ''b'' [[], []]],
      content = [Element 0 ''div'' [(''a'', ''{{}}''), (''b'', ''{{}}'')] []]\<rparr>"

lemma two_attribute_template_compiled:
  "new_Template 0 [Element 0 ''div'' [(''a'', ''{{}}''), (''b'', ''{{}}'')] []] =
     Some two_attribute_template"
  unfolding two_attribute_template_def by code_simp

theorem parts_in_position_order_witness:
  "new_Template 0 [Element 0 ''div'' [(''a'', ''{{}}''), (''b'', ''{{}}'')] []] =
     Some two_attribute_template
   \<and> sorted (map index (parts two_attribute_template))
   \<and> (0::nat) < 1 \<and> 1 < length (parts two_attribute_template)
   \<and> index (parts two_attribute_template ! 0) = index (parts two_attribute_template ! 1)
   \<and> is_attribute (parts two_attribute_template ! 0)
   \<and> is_attribute (parts two_attribute_template ! 1)"
  using parts_in_position_order[OF two_attribute_template_compiled] two_attribute_template_compiled
  by (simp add: two_attribute_template_def)

theorem two_attribute_parts_share_a_position:
  "map_option (\<lambda>t. map index (parts t))
     (new_Template 0 [Element 0 ''div'' [(''a'', ''{{}}''), (''b'', ''{{}}'')] []]) = Some [0, 0]
   \<and> \<not> distinct [0 :: int, 0]"
  by (simp add: two_attribute_template_compiled two_attribute_template_def)

section \<open>Attribute parts\<close>



subsection \<open>Finding nodes\<close>

lemma find_app:
  "find P (xs @ ys) = (case find P xs of None \<Rightarrow> find P ys | Some x \<Rightarrow> Some x)"
  by (induction xs) auto



lemma find_node_nid: "find_node i root = Some n \<Longrightarrow> nid n = i"
  by (auto simp: find_node_def dest: find_Some_iff[THEN iffD1])

lemma find_node_Nil [simp]: "find_node k [] = None"
  by (simp add: find_node_def)

lemma find_node_Cons_Element:
  "find_node k (Element i t a cs # ns) =
     (if i = k then Some (Element i t a cs)
      else case find_node k cs of Some n \<Rightarrow> Some n | None \<Rightarrow> find_node k ns)"
  by (simp add: find_node_def find_app split: option.splits)

lemma find_node_Cons_Text:
  "find_node k (Text i d # ns) = (if i = k then Some (Text i d) else find_node k ns)"
  by (simp add: find_node_def)

lemma find_node_Cons_Comment:
  "find_node k (Comment i d # ns) = (if i = k then Some (Comment i d) else find_node k ns)"
  by (simp add: find_node_def)

lemmas find_node_simps = find_node_Cons_Element find_node_Cons_Text find_node_Cons_Comment

lemma ids_put_attribute [simp]: "ids (put_attribute node name v root) = ids root"
  unfolding ids_def by (induction node name v root rule: put_attribute.induct) auto

lemma in_tree_put_attribute [simp]: "in_tree i (put_attribute node name v root) = in_tree i root"
  by (simp add: in_tree_def)


lemma map_of_set_attr [simp]: "map_of (set_attr name v a) name = Some v"
  by (induction name v a rule: set_attr.induct) auto



text \<open>
  The literal \<^verbatim>\<open><div class="a ${x} b ${y} c"></div>\<close> of the specification, with the
  values x and y: the update of the one part writes the string \<^verbatim>\<open>a x b y c\<close>, and so
  does the whole way from the compiler to the first rendering. The literal
  \<^verbatim>\<open><div =a="${x}"></div>\<close>, whose attribute the HTML parser names \<^verbatim>\<open>=a\<close>: the update
  throws.
\<close>

definition class_template :: template where
  "class_template =
     \<lparr>tid = 0, parts = [AttributePart 0 ''class'' [''a '', '' b '', '' c'']],
      content = [Element 0 ''div'' [(''class'', ''a {{}} b {{}} c'')] []]\<rparr>"

lemma class_template_compiled:
  "new_Template 0 [Element 0 ''div'' [(''class'', ''a {{}} b {{}} c'')] []] = Some class_template"
  unfolding class_template_def by code_simp







section \<open>Deferred values\<close>

fun is_function :: "val \<Rightarrow> bool" where
  "is_function (VFun src c) = True"
| "is_function v = False"






lemma getValue_not_function: "getValue v = Some (r, es) \<Longrightarrow> \<not> is_function r"
  by (induction v arbitrary: r es rule: getValue.induct) auto


lemma getValue_value: "\<not> is_function v \<Longrightarrow> getValue v = Some (v, [])"
  by (cases v) auto



subsection \<open>Membership in the tree\<close>

lemma in_tree_Nil [simp]: "\<not> in_tree k []"
  by (simp add: in_tree_def ids_def)

lemma in_tree_Cons_Element:
  "in_tree k (Element i t a cs # ns) \<longleftrightarrow> i = k \<or> in_tree k cs \<or> in_tree k ns"
  by (auto simp: in_tree_def ids_def)

lemma in_tree_Cons_Text: "in_tree k (Text i d # ns) \<longleftrightarrow> i = k \<or> in_tree k ns"
  by (auto simp: in_tree_def ids_def)

lemma in_tree_Cons_Comment: "in_tree k (Comment i d # ns) \<longleftrightarrow> i = k \<or> in_tree k ns"
  by (auto simp: in_tree_def ids_def)

lemmas in_tree_simps = in_tree_Cons_Element in_tree_Cons_Text in_tree_Cons_Comment




subsection \<open>The values after a slot\<close>






text \<open>
  The examples of the specification, at the slot 101 of a tree of three text nodes, with
  chains of two invocations: a function that returns a function that returns the
  string v renders v; a function that returns a function that throws renders the empty
  text, writes the error to the console, and the update returns.
\<close>

definition slot_state :: state where
  "slot_state = (empty_state 103)\<lparr>tree := [Text 100 [], Text 101 ''old'', Text 102 []]\<rparr>"





section \<open>Nested instances\<close>

text \<open>
  Claim C4 says that a slot which records an instance of the very template object of
  the result it is given reuses the instance, and that otherwise the bounded range of
  the old instance is removed, the text of the anchor cleared and a new instance put
  after the anchor and updated. Here the slot of \<open>slot_template\<close> (node 101) gets a
  result of \<open>slot_in_bold\<close> with the value x: the instance has the start sentinel 108,
  the element 104 with the slot 106, and the end sentinel 109. A result of the same
  template object with the value y is given to the recorded instance: the nodes are
  the ones they were and the text of 106 is y. Then a result arrives whose template
  has the same parts and content but is another object: the record changes to a new
  instance with new nodes (the sentinels 117 and 118, the slot 115 with the text z),
  put immediately after the anchor. The range of the old instance is not removed as
  the claim says: \<^verbatim>\<open>_cleanup\<close> stops before the end sentinel, and the node 109 of the
  old instance stays in the tree, after the range of the new instance.
\<close>

theorem replaced_instance_leaves_old_end_sentinel:
  "(case appendTo slot_template [VResult slot_in_bold [VStr ''x'']] (empty_state 100) of
      None \<Rightarrow> None
    | Some (inst, s) \<Rightarrow>
        (case update inst [VResult slot_in_bold [VStr ''y'']] s of
           None \<Rightarrow> None
         | Some s1 \<Rightarrow>
             map_option
               (\<lambda>s'. ((occupant s 101, tree s), (occupant s1 101, tree s1),
                      (occupant s' 101, tree s', in_tree 109 (tree s'))))
               (update inst [VResult (slot_in_bold\<lparr>tid := 4\<rparr>) [VStr ''z'']] s1))) =
   Some ((Some \<lparr>i_template = slot_in_bold, i_parts = [(NodePart 2, 106)],
                  startNode = Some 108, endNode = Some 109\<rparr>,
          [Text 100 [], Text 101 [], Text 108 [],
           Element 104 ''b'' [] [Text 105 [], Text 106 ''x'', Text 107 []],
           Text 109 [], Text 102 []]),
         (Some \<lparr>i_template = slot_in_bold, i_parts = [(NodePart 2, 106)],
                  startNode = Some 108, endNode = Some 109\<rparr>,
          [Text 100 [], Text 101 [], Text 108 [],
           Element 104 ''b'' [] [Text 105 [], Text 106 ''y'', Text 107 []],
           Text 109 [], Text 102 []]),
         (Some \<lparr>i_template = slot_in_bold\<lparr>tid := 4\<rparr>, i_parts = [(NodePart 2, 115)],
                  startNode = Some 117, endNode = Some 118\<rparr>,
          [Text 100 [], Text 101 [], Text 117 [],
           Element 113 ''b'' [] [Text 114 [], Text 115 ''z'', Text 116 []],
           Text 118 [], Text 109 [], Text 102 []],
          True))"
  by code_simp

subsection \<open>The siblings of a node\<close>

text \<open>The siblings that follow a node, in order.\<close>

fun siblings_after :: "node_id \<Rightarrow> node list \<Rightarrow> node list option" where
  "siblings_after k [] = None"
| "siblings_after k (Element i t a cs # ns) =
     (if i = k then Some ns
      else case siblings_after k cs of Some r \<Rightarrow> Some r | None \<Rightarrow> siblings_after k ns)"
| "siblings_after k (n # ns) = (if nid n = k then Some ns else siblings_after k ns)"

lemma insertAfter_absent: "\<not> in_tree k root \<Longrightarrow> insertAfter new k root = root"
  by (induction new k root rule: insertAfter.induct) (auto simp: in_tree_simps)

lemma siblings_after_insertAfter:
  "siblings_after k (insertAfter new k root) = map_option (\<lambda>r. new @ r) (siblings_after k root)"
proof (induction new k root rule: insertAfter.induct)
  case (1 new ref)
  then show ?case by simp
next
  case (2 new ref i t a cs ns)
  then show ?case
    by (auto split: option.splits)
qed auto

lemma find_node_insertAfter_self: "find_node k (insertAfter new k root) = find_node k root"
proof (induction new k root rule: insertAfter.induct)
  case (1 new ref)
  then show ?case by simp
next
  case (2 new ref i t a cs ns)
  then show ?case by (auto simp: find_node_simps split: option.splits)
qed (auto simp: find_node_simps)

lemma importNode_next: "n \<le> snd (importNode n f)"
proof (induction n f rule: importNode.induct)
  case (1 n)
  then show ?case by simp
next
  case (2 n i t a cs ns)
  have a: "Suc n \<le> snd (importNode (Suc n) cs)" by (rule 2(1))
  have b: "snd (importNode (Suc n) cs) \<le> snd (importNode (snd (importNode (Suc n) cs)) ns)"
    using 2(2) by (metis prod.collapse)
  from a b show ?case by (simp add: split_beta Let_def)
next
  case (3 n i d ns)
  then show ?case by (auto simp: split_beta Let_def intro: Suc_leD)
next
  case (4 n i d ns)
  then show ?case by (auto simp: split_beta Let_def intro: Suc_leD)
qed

subsection \<open>Node identities\<close>

lemma ids_Nil [simp]: "ids [] = []"
  by (simp add: ids_def)

lemma ids_Cons_Element [simp]: "ids (Element i t a cs # ns) = i # ids cs @ ids ns"
  by (simp add: ids_def)

lemma ids_Cons_Text [simp]: "ids (Text i d # ns) = i # ids ns"
  by (simp add: ids_def)

lemma ids_Cons_Comment [simp]: "ids (Comment i d # ns) = i # ids ns"
  by (simp add: ids_def)

lemma ids_Cons: "ids (n # ns) = ids [n] @ ids ns"
  by (cases n) auto

lemma ids_append [simp]: "ids (xs @ ys) = ids xs @ ids ys"
proof (induction xs)
  case Nil
  then show ?case by simp
next
  case (Cons n xs)
  then show ?case by (cases n) auto
qed

lemma remove_run_ids: "set (ids (remove_run e (n # ns))) \<subseteq> set (ids ns)"
proof (induction ns arbitrary: n)
  case Nil
  then show ?case by simp
next
  case (Cons m ns)
  have "set (ids ns) \<subseteq> set (ids (m # ns))"
    using ids_Cons[of m ns] by auto
  with Cons[of m] show ?case by auto
qed

section \<open>What an update leaves alone\<close>

subsection \<open>Changes to the tree at a node that is not among the first nodes\<close>

lemma set_text_absent: "node \<notin> set (ids root) \<Longrightarrow> set_text node str new root = root"
  by (induction node str new root rule: set_text.induct) auto

lemma put_attribute_absent: "node \<notin> set (ids root) \<Longrightarrow> put_attribute node name v root = root"
  by (induction node name v root rule: put_attribute.induct) auto

lemma insertAfter_absent': "node \<notin> set (ids root) \<Longrightarrow> insertAfter new node root = root"
  by (induction new node root rule: insertAfter.induct) auto

lemma cleanup_from_absent: "start \<notin> set (ids root) \<Longrightarrow> cleanup_from start e root = root"
  by (induction start e root rule: cleanup_from.induct) auto

lemma set_text_append:
  "node \<notin> set (ids T) \<Longrightarrow> set_text node str new (T @ X) = T @ set_text node str new X"
proof (induction T)
  case Nil
  then show ?case by simp
next
  case (Cons n T)
  then show ?case by (cases n) (auto simp: set_text_absent)
qed

lemma put_attribute_append:
  "node \<notin> set (ids T) \<Longrightarrow> put_attribute node name v (T @ X) = T @ put_attribute node name v X"
proof (induction T)
  case Nil
  then show ?case by simp
next
  case (Cons n T)
  then show ?case by (cases n) (auto simp: put_attribute_absent)
qed

lemma insertAfter_append:
  "node \<notin> set (ids T) \<Longrightarrow> insertAfter new node (T @ X) = T @ insertAfter new node X"
proof (induction T)
  case Nil
  then show ?case by simp
next
  case (Cons n T)
  then show ?case by (cases n) (auto simp: insertAfter_absent')
qed

lemma cleanup_from_append:
  "start \<notin> set (ids T) \<Longrightarrow> cleanup_from start e (T @ X) = T @ cleanup_from start e X"
proof (induction T)
  case Nil
  then show ?case by simp
next
  case (Cons n T)
  then show ?case by (cases n) (auto simp: cleanup_from_absent)
qed

lemma ids_set_text: "set (ids (set_text node str new root)) \<subseteq> insert new (set (ids root))"
  by (induction node str new root rule: set_text.induct) auto

lemma ids_insertAfter:
  "set (ids (insertAfter new node root)) \<subseteq> set (ids new) \<union> set (ids root)"
  by (induction new node root rule: insertAfter.induct) auto

lemma remove_run_ids': "set (ids (remove_run e ns)) \<subseteq> set (ids ns)"
proof (cases ns)
  case Nil
  then show ?thesis by simp
next
  case (Cons n ns')
  with remove_run_ids[of e n ns'] ids_Cons[of n ns'] show ?thesis by auto
qed

lemma ids_cleanup_from: "set (ids (cleanup_from start e root)) \<subseteq> set (ids root)"
proof (induction start e root rule: cleanup_from.induct)
  case (2 start e i t a cs ns)
  then show ?case using remove_run_ids[of e "Element i t a cs" ns] by auto
qed (auto dest!: subsetD[OF remove_run_ids])

lemma ids_importNode:
  "i \<in> set (ids (fst (importNode n f))) \<Longrightarrow> n \<le> i \<and> i < snd (importNode n f)"
proof (induction n f arbitrary: i rule: importNode.induct)
  case (1 n)
  then show ?case by simp
next
  case (2 n j t a cs ns)
  obtain cs' n1 where c: "importNode (Suc n) cs = (cs', n1)" by (metis prod.exhaust)
  obtain ns' n2 where d: "importNode n1 ns = (ns', n2)" by (metis prod.exhaust)
  have m1: "Suc n \<le> n1" using importNode_next[of "Suc n" cs] c by simp
  have m2: "n1 \<le> n2" using importNode_next[of n1 ns] d by simp
  from 2(3) c d have "i = n \<or> i \<in> set (ids cs') \<or> i \<in> set (ids ns')" by auto
  then show ?case
  proof (elim disjE)
    assume "i = n" with m1 m2 c d show ?thesis by simp
  next
    assume "i \<in> set (ids cs')"
    with 2(1)[of i] c have "Suc n \<le> i \<and> i < n1" by simp
    with m2 c d show ?thesis by simp
  next
    assume "i \<in> set (ids ns')"
    with 2(2)[OF c[symmetric] refl, of i] d have "n1 \<le> i \<and> i < n2" by simp
    with m1 c d show ?thesis by simp
  qed
next
  case (3 n j d ns)
  obtain ns' n1 where d: "importNode (Suc n) ns = (ns', n1)" by (metis prod.exhaust)
  have m: "Suc n \<le> n1" using importNode_next[of "Suc n" ns] d by simp
  from 3(2) d have "i = n \<or> i \<in> set (ids ns')" by auto
  then show ?case using 3(1)[of i] d m by auto
next
  case (4 n j d ns)
  obtain ns' n1 where d: "importNode (Suc n) ns = (ns', n1)" by (metis prod.exhaust)
  have m: "Suc n \<le> n1" using importNode_next[of "Suc n" ns] d by simp
  from 4(2) d have "i = n \<or> i \<in> set (ids ns')" by auto
  then show ?case using 4(1)[of i] d m by auto
qed

lemma walk_subset_nodes: "set (walk root) \<subseteq> set (nodes root)"
  by (induction root rule: walk.induct) auto

lemma clone_loop_nodes:
  "(p, n) \<in> set (clone_loop ws ps i k acc) \<Longrightarrow> (p, n) \<in> set acc \<or> n \<in> nid ` set ws"
  by (induction ws ps i k acc rule: clone_loop.induct) (auto split: if_splits)

lemma clone_pairs:
  assumes "clone t s = ((fragment, pairs), s1)"
  shows "next_id s \<le> next_id s1 \<and> tree s1 = tree s \<and> occupant s1 = occupant s \<and>
         (\<forall>i \<in> set (ids fragment). next_id s \<le> i \<and> i < next_id s1) \<and>
         (\<forall>(p, n) \<in> set pairs. next_id s \<le> n \<and> n < next_id s1)"
proof -
  have f: "fragment = fst (importNode (next_id s) (content t))"
    and n: "next_id s1 = snd (importNode (next_id s) (content t))"
    and ts: "tree s1 = tree s" "occupant s1 = occupant s"
    using assms by (auto simp: clone_def split_beta Let_def)
  have b: "\<forall>i \<in> set (ids fragment). next_id s \<le> i \<and> i < next_id s1"
    using ids_importNode[of _ "next_id s" "content t"] f n by auto
  have "n \<in> set (ids fragment)" if "(p, n) \<in> set pairs" for p n
  proof -
    from that assms have "(p, n) \<in> set (clone_loop (walk fragment) (parts t) (- 1) 0 [])"
      by (auto simp: clone_def split_beta Let_def f split: if_splits)
    then have "n \<in> nid ` set (walk fragment)" by (auto dest: clone_loop_nodes)
    then show ?thesis using walk_subset_nodes[of fragment] by (auto simp: ids_def)
  qed
  with b have "\<forall>(p, n) \<in> set pairs. next_id s \<le> n \<and> n < next_id s1" by auto
  with b ts importNode_next[of "next_id s" "content t"] n show ?thesis by auto
qed

subsection \<open>The paths through an update\<close>

text \<open>
  The first step of \<^verbatim>\<open>_renderValue\<close>: an instance recorded at the node is cleaned up,
  unless the value is a result of the same template.
\<close>

definition vacate :: "val \<Rightarrow> node_id \<Rightarrow> state \<Rightarrow> state option" where
  "vacate v node s =
     (case occupant s node of
        None \<Rightarrow> Some s
      | Some inst \<Rightarrow> if \<not> same_template inst v then cleanup node s else Some s)"

text \<open>
  What the loop of \<^verbatim>\<open>update\<close> does with the resolved value of a node part.
\<close>

definition render_slot :: "val \<Rightarrow> node_id \<Rightarrow> state \<Rightarrow> state option" where
  "render_slot v node s =
     (case items_of v of
        Some items \<Rightarrow>
          (case render_items items (s\<lparr>tree := []\<rparr>) of
             None \<Rightarrow> None
           | Some sf \<Rightarrow> renderValue (VFragment (tree sf)) node (sf\<lparr>tree := tree s\<rparr>))
      | None \<Rightarrow> renderValue v node s)"

fun is_template_result :: "val \<Rightarrow> bool" where
  "is_template_result (VResult t vs) = True"
| "is_template_result v = False"


lemma update_parts_Node:
  "update_parts ((NodePart i, node) # pairs) values vi s =
     (case getValue (value_at values vi) of
        None \<Rightarrow> None
      | Some (v, es) \<Rightarrow>
          (case render_slot v node (s\<lparr>console := console s @ es\<rparr>) of
             None \<Rightarrow> None
           | Some s' \<Rightarrow> update_parts pairs values (Suc vi) s'))"
proof (cases "getValue (value_at values vi)")
  case None
  then show ?thesis by simp
next
  case (Some r)
  obtain v es where r: "r = (v, es)" by (cases r)
  show ?thesis
    by (simp add: Some r render_slot_def del: renderValue.simps split: option.splits)
qed

lemma update_parts_Attribute:
  "update_parts ((AttributePart i name strings, node) # pairs) values vi s =
     (case setAttribute node name (fst (attribute_text strings values vi [])) (tree s) of
        None \<Rightarrow> None
      | Some root \<Rightarrow>
          update_parts pairs values (snd (attribute_text strings values vi []))
            (s\<lparr>tree := root\<rparr>))"
  by (simp add: case_prod_beta)

lemma setAttribute_Some:
  "setAttribute node name v root = Some r \<longleftrightarrow>
     r = put_attribute node name v root \<and> valid_name name \<and>
     (\<forall>j d. find_node node root \<noteq> Some (Text j d)) \<and>
     (\<forall>j d. find_node node root \<noteq> Some (Comment j d))"
  by (auto simp: setAttribute_def split: option.splits node.splits)

lemma renderValue_Fragment:
  "renderValue (VFragment f) node s =
     (case vacate (VFragment f) node s of
        None \<Rightarrow> None
      | Some s1 \<Rightarrow>
          if in_tree node (tree s1) then Some (s1\<lparr>tree := insertAfter f node (tree s1)\<rparr>)
          else None)"
  by (auto simp: vacate_def split: option.splits)

lemma renderValue_Result:
  "renderValue (VResult t vs) node s =
     (case occupant s node of
        None \<Rightarrow>
          (case stamp t node s of
             None \<Rightarrow> None
           | Some (inst, s2) \<Rightarrow> update_parts (i_parts inst) vs 0 s2)
      | Some old \<Rightarrow>
          if tid (i_template old) = tid t then update_parts (i_parts old) vs 0 s
          else (case cleanup node s of
                  None \<Rightarrow> None
                | Some s1 \<Rightarrow>
                    (case stamp t node s1 of
                       None \<Rightarrow> None
                     | Some (inst, s2) \<Rightarrow> update_parts (i_parts inst) vs 0 s2)))"
  by (auto split: option.splits)

lemma renderValue_text:
  assumes "\<not> is_template_result v" "\<forall>f. v \<noteq> VFragment f"
  shows "renderValue v node s =
     map_option (set_textContent node (text_of v)) (vacate v node s)"
proof (cases v)
  case (VResult t vs)
  with assms show ?thesis by simp
next
  case (VFragment f)
  with assms show ?thesis by simp
qed (simp_all add: vacate_def split: option.splits)

lemma render_items_Cons:
  "render_items (item # items) s =
     (case renderValue item (next_id s)
             (s\<lparr>tree := tree s @ [Text (next_id s) []], next_id := Suc (next_id s)\<rparr>) of
        None \<Rightarrow> None
      | Some s1 \<Rightarrow> render_items items s1)"
  by simp

text \<open>
  Induction over the calls of \<^verbatim>\<open>update\<close>, \<^verbatim>\<open>_renderValue\<close> and the loop over the
  items, one case for each path through the code.
\<close>

lemma update_induct [case_names Nil Attribute Node Array Fragment Result Text ItemsNil ItemsCons Slot]:
  assumes "\<And>values vi s. P [] values vi s"
    and "\<And>i name strings node pairs values vi s.
          (\<And>root. setAttribute node name (fst (attribute_text strings values vi [])) (tree s) =
                    Some root \<Longrightarrow>
                  P pairs values (snd (attribute_text strings values vi []))
                    (s\<lparr>tree := root\<rparr>)) \<Longrightarrow>
          P ((AttributePart i name strings, node) # pairs) values vi s"
    and "\<And>i node pairs values vi s.
          (\<And>v es. getValue (value_at values vi) = Some (v, es) \<Longrightarrow>
                   S v node (s\<lparr>console := console s @ es\<rparr>)) \<Longrightarrow>
          (\<And>v es s'. getValue (value_at values vi) = Some (v, es) \<Longrightarrow>
                   render_slot v node (s\<lparr>console := console s @ es\<rparr>) = Some s' \<Longrightarrow>
                   P pairs values (Suc vi) s') \<Longrightarrow>
          P ((NodePart i, node) # pairs) values vi s"
    and "\<And>v items node s.
          items_of v = Some items \<Longrightarrow>
          R items (s\<lparr>tree := []\<rparr>) \<Longrightarrow>
          (\<And>sf. render_items items (s\<lparr>tree := []\<rparr>) = Some sf \<Longrightarrow>
                 Q (VFragment (tree sf)) node (sf\<lparr>tree := tree s\<rparr>)) \<Longrightarrow>
          S v node s"
    and "\<And>f node s. Q (VFragment f) node s"
    and "\<And>t vs node s.
          (\<And>inst s2. occupant s node = None \<Longrightarrow> stamp t node s = Some (inst, s2) \<Longrightarrow>
                   P (i_parts inst) vs 0 s2) \<Longrightarrow>
          (\<And>old. occupant s node = Some old \<Longrightarrow> tid (i_template old) = tid t \<Longrightarrow>
                   P (i_parts old) vs 0 s) \<Longrightarrow>
          (\<And>old s1 inst s2. occupant s node = Some old \<Longrightarrow> tid (i_template old) \<noteq> tid t \<Longrightarrow>
                   cleanup node s = Some s1 \<Longrightarrow> stamp t node s1 = Some (inst, s2) \<Longrightarrow>
                   P (i_parts inst) vs 0 s2) \<Longrightarrow>
          Q (VResult t vs) node s"
    and "\<And>v node s. \<not> is_template_result v \<Longrightarrow> (\<forall>f. v \<noteq> VFragment f) \<Longrightarrow> Q v node s"
    and "\<And>s. R [] s"
    and "\<And>item items s.
          Q item (next_id s)
            (s\<lparr>tree := tree s @ [Text (next_id s) []], next_id := Suc (next_id s)\<rparr>) \<Longrightarrow>
          (\<And>s1. renderValue item (next_id s)
                   (s\<lparr>tree := tree s @ [Text (next_id s) []], next_id := Suc (next_id s)\<rparr>) =
                 Some s1 \<Longrightarrow> R items s1) \<Longrightarrow>
          R (item # items) s"
    and "\<And>v node s. items_of v = None \<Longrightarrow> Q v node s \<Longrightarrow> S v node s"
  shows "P pairs values vi s" and "Q v node s" and "R items s"
proof (induction pairs "values" vi s and v node s and items s
       rule: update_parts_renderValue_render_items.induct)
  case (1 "values" valueIndex s)
  show ?case by (rule assms(1))
next
  case (2 i name strings node pairs "values" valueIndex s)
  show ?case
  proof (rule assms(2))
    fix root
    assume "setAttribute node name (fst (attribute_text strings values valueIndex [])) (tree s) =
              Some root"
    from 2(1)[OF prod.collapse this]
    show "P pairs values (snd (attribute_text strings values valueIndex [])) (s\<lparr>tree := root\<rparr>)" .
  qed
next
  case (3 i node pairs "values" valueIndex s)
  show ?case
  proof (rule assms(3))
    fix v es assume g: "getValue (value_at values valueIndex) = Some (v, es)"
    show "S v node (s\<lparr>console := console s @ es\<rparr>)"
    proof (cases "items_of v")
      case (Some items)
      have r: "R items ((s\<lparr>console := console s @ es\<rparr>)\<lparr>tree := []\<rparr>)"
        using 3(2)[OF g refl Some] by simp
      have q: "Q (VFragment (tree sf)) node (sf\<lparr>tree := tree (s\<lparr>console := console s @ es\<rparr>)\<rparr>)"
        if "render_items items ((s\<lparr>console := console s @ es\<rparr>)\<lparr>tree := []\<rparr>) = Some sf" for sf
        using 3(3)[OF g refl Some, of sf] that by simp
      show ?thesis by (rule assms(4)[OF Some r q])
    next
      case None
      from 3(1)[OF g refl None] show ?thesis by (rule assms(10)[OF None])
    qed
  next
    fix v es s'
    assume g: "getValue (value_at values valueIndex) = Some (v, es)"
      and r: "render_slot v node (s\<lparr>console := console s @ es\<rparr>) = Some s'"
    show "P pairs values (Suc valueIndex) s'"
      by (rule 3(4)[OF g refl])
         (use r in \<open>auto simp add: render_slot_def simp del: renderValue.simps
            split: option.splits\<close>)
  qed
next
  case (4 v node s)
  show ?case
  proof (cases v)
    case (VFragment f)
    show ?thesis unfolding VFragment by (rule assms(5))
  next
    case (VResult t vs)
    show ?thesis unfolding VResult
    proof (rule assms(6))
      fix inst s2 assume o: "occupant s node = None" and st: "stamp t node s = Some (inst, s2)"
      show "P (i_parts inst) vs 0 s2"
        by (rule 4(1)[OF refl _ VResult _ st refl]) (simp_all add: o)
    next
      fix old assume o: "occupant s node = Some old" and e: "tid (i_template old) = tid t"
      show "P (i_parts old) vs 0 s"
        by (rule 4(2)[OF refl _ VResult]) (simp_all add: o e VResult)
    next
      fix old s1 inst s2
      assume o: "occupant s node = Some old" and e: "tid (i_template old) \<noteq> tid t"
        and c: "cleanup node s = Some s1" and st: "stamp t node s1 = Some (inst, s2)"
      show "P (i_parts inst) vs 0 s2"
        by (rule 4(1)[OF refl _ VResult _ st refl]) (use o e c in \<open>auto simp: VResult\<close>)
    qed
  qed (auto intro: assms(7))
next
  case (5 s)
  show ?case by (rule assms(8))
next
  case (6 item items s)
  show ?case by (rule assms(9)[OF 6(1) 6(2)])
qed

subsection \<open>The first nodes of the tree\<close>

text \<open>
  The kinds of values the specification lists: plain values, deferred values, nested
  template results and iterables, at any depth. A document fragment made by the caller
  is not among them.
\<close>

fun supported :: "val \<Rightarrow> bool" and supported_call :: "call \<Rightarrow> bool" where
  "supported VUndefined = True"
| "supported VNull = True"
| "supported (VBool b) = True"
| "supported (VStr s) = True"
| "supported (VOther str) = True"
| "supported (VFun src c) = supported_call c"
| "supported (VArray items) = list_all supported items"
| "supported (VIterable str items) = list_all supported items"
| "supported (VResult t vs) = list_all supported vs"
| "supported (VFragment f) = False"
| "supported_call (Returns v) = supported v"
| "supported_call (Throws e) = True"
| "supported_call NeverReturns = True"

text \<open>
  Every node of the tree was made before the next identity, and no node that is not
  made yet has an instance recorded.
\<close>

definition fresh_ok :: "state \<Rightarrow> bool" where
  "fresh_ok s =
     ((\<forall>i \<in> set (ids (tree s)). i < next_id s) \<and> (\<forall>x. next_id s \<le> x \<longrightarrow> occupant s x = None))"

text \<open>
  The nodes of the pairs are not below \<open>b\<close>.
\<close>

definition beyond :: "node_id \<Rightarrow> (part \<times> node_id) list \<Rightarrow> bool" where
  "beyond b pairs = (\<forall>n \<in> snd ` set pairs. b \<le> n)"

lemma beyond_Nil [simp]: "beyond b []"
  by (simp add: beyond_def)

lemma beyond_Cons [simp]: "beyond b ((p, n) # pairs) \<longleftrightarrow> b \<le> n \<and> beyond b pairs"
  by (simp add: beyond_def)

text \<open>
  The instances recorded at nodes from \<open>b\<close> on start and work at nodes from \<open>b\<close> on.
\<close>

definition occ_big :: "node_id \<Rightarrow> state \<Rightarrow> bool" where
  "occ_big b s =
     (\<forall>x inst. b \<le> x \<longrightarrow> occupant s x = Some inst \<longrightarrow>
        (\<forall>st. startNode inst = Some st \<longrightarrow> b \<le> st) \<and> beyond b (i_parts inst))"

text \<open>
  The tree starts with the nodes \<open>T\<close>, all made before \<open>b\<close>; an update that works on
  nodes from \<open>b\<close> on leaves them as they are, and leaves the records of the nodes
  before \<open>b\<close> as they are.
\<close>

definition frame_pre :: "node_id \<Rightarrow> node list \<Rightarrow> node list \<Rightarrow> state \<Rightarrow> bool" where
  "frame_pre b T X s =
     (tree s = T @ X \<and> (\<forall>i \<in> set (ids T). i < b) \<and> b \<le> next_id s \<and> fresh_ok s \<and> occ_big b s)"

definition frame_post :: "node_id \<Rightarrow> node list \<Rightarrow> state \<Rightarrow> state \<Rightarrow> bool" where
  "frame_post b T s s' =
     ((\<exists>X'. tree s' = T @ X') \<and> next_id s \<le> next_id s' \<and> fresh_ok s' \<and> occ_big b s' \<and>
      (\<forall>x. x < b \<longrightarrow> occupant s' x = occupant s x))"

text \<open>
  A value \<^verbatim>\<open>_renderValue\<close> is given: a supported one, or the fragment built for an
  iterable.
\<close>

definition value_ok :: "state \<Rightarrow> val \<Rightarrow> bool" where
  "value_ok s v =
     (case v of VFragment f \<Rightarrow> (\<forall>i \<in> set (ids f). i < next_id s) | _ \<Rightarrow> supported v)"

lemma supported_getValue: "getValue v = Some (r, es) \<Longrightarrow> supported v \<Longrightarrow> supported r"
  by (induction v arbitrary: r es rule: getValue.induct) auto

lemma supported_items: "supported v \<Longrightarrow> items_of v = Some items \<Longrightarrow> list_all supported items"
  by (cases v) auto

lemma supported_value_at: "list_all supported values \<Longrightarrow> supported (value_at values vi)"
  by (auto simp: value_at_def list_all_length)

lemma frame_post_pre:
  "frame_pre b T X s \<Longrightarrow> frame_post b T s s' \<Longrightarrow> \<exists>X'. frame_pre b T X' s'"
  by (auto simp: frame_pre_def frame_post_def)

lemma frame_post_trans:
  "frame_post b T s s1 \<Longrightarrow> frame_post b T s1 s2 \<Longrightarrow> frame_post b T s s2"
  by (auto simp: frame_post_def)

lemma frame_post_refl: "frame_pre b T X s \<Longrightarrow> frame_post b T s s"
  by (auto simp: frame_pre_def frame_post_def)

lemma frame_cleanup:
  assumes "frame_pre b T X s" "b \<le> node" "cleanup node s = Some s1"
  shows "frame_post b T s s1"
proof -
  from assms(3) obtain inst start where
    o: "occupant s node = Some inst" "startNode inst = Some start"
    and s1: "s1 = s\<lparr>tree := cleanup_from start (endNode inst) (tree s),
                    occupant := (occupant s)(node := None)\<rparr>"
    by (auto simp: cleanup_def split: option.splits if_splits)
  from assms(1,2) o have "b \<le> start" by (auto simp: frame_pre_def occ_big_def)
  with assms(1) have "start \<notin> set (ids T)" by (auto simp: frame_pre_def)
  then have "tree s1 = T @ cleanup_from start (endNode inst) X"
    using assms(1) by (simp add: s1 frame_pre_def cleanup_from_append)
  moreover have "fresh_ok s1"
    using assms(1) ids_cleanup_from[of start "endNode inst" "tree s"]
    by (auto simp: s1 frame_pre_def fresh_ok_def)
  moreover have "occ_big b s1"
    using assms(1) by (auto simp: s1 frame_pre_def occ_big_def)
  moreover have "\<forall>x. x < b \<longrightarrow> occupant s1 x = occupant s x"
    using assms(2) by (simp add: s1)
  ultimately show ?thesis by (simp add: frame_post_def s1)
qed

lemma frame_vacate:
  assumes "frame_pre b T X s" "b \<le> node" "vacate v node s = Some s1"
  shows "frame_post b T s s1 \<and> next_id s1 = next_id s"
proof (cases "cleanup node s = Some s1")
  case True
  with frame_cleanup[OF assms(1,2)] show ?thesis
    by (auto simp: cleanup_def split: option.splits if_splits)
next
  case False
  with assms(3) have "s1 = s" by (auto simp: vacate_def split: option.splits if_splits)
  with assms(1) show ?thesis by (auto intro: frame_post_refl)
qed

lemma ids_set_text_bound:
  assumes "\<forall>i \<in> set (ids root). i < n"
  shows "\<forall>i \<in> set (ids (set_text node str n root)). i < Suc n"
proof
  fix i assume "i \<in> set (ids (set_text node str n root))"
  with ids_set_text[of node str n root] have "i = n \<or> i \<in> set (ids root)" by blast
  with assms show "i < Suc n" by (auto simp: less_Suc_eq)
qed

lemma ids_insertAfter_bound:
  assumes "\<forall>i \<in> set (ids root). i < n" "\<forall>i \<in> set (ids f). i < n"
  shows "\<forall>i \<in> set (ids (insertAfter f node root)). i < n"
proof
  fix i assume "i \<in> set (ids (insertAfter f node root))"
  with ids_insertAfter[of f node root] have "i \<in> set (ids f) \<or> i \<in> set (ids root)" by blast
  with assms show "i < n" by auto
qed

lemma frame_set_textContent:
  assumes "frame_pre b T X s" "b \<le> node"
  shows "frame_post b T s (set_textContent node str s)"
proof -
  from assms have "node \<notin> set (ids T)" by (auto simp: frame_pre_def)
  then have "tree (set_textContent node str s) = T @ set_text node str (next_id s) X"
    using assms(1) by (simp add: set_textContent_def frame_pre_def set_text_append)
  moreover have "fresh_ok (set_textContent node str s)"
  proof -
    have "\<forall>i \<in> set (ids (tree s)). i < next_id s"
      using assms(1) by (simp add: frame_pre_def fresh_ok_def)
    from ids_set_text_bound[OF this, of node str]
    show ?thesis using assms(1) by (simp add: set_textContent_def frame_pre_def fresh_ok_def)
  qed
  moreover have "occ_big b (set_textContent node str s)"
    using assms(1) by (simp add: set_textContent_def frame_pre_def occ_big_def)
  ultimately show ?thesis by (simp add: frame_post_def set_textContent_def)
qed

lemma frame_insertAfter:
  assumes "frame_pre b T X s" "b \<le> node" "\<forall>i \<in> set (ids f). i < next_id s"
  shows "frame_post b T s (s\<lparr>tree := insertAfter f node (tree s)\<rparr>)"
proof -
  from assms have "node \<notin> set (ids T)" by (auto simp: frame_pre_def)
  then have "insertAfter f node (tree s) = T @ insertAfter f node X"
    using assms(1) by (simp add: frame_pre_def insertAfter_append)
  moreover have "fresh_ok (s\<lparr>tree := insertAfter f node (tree s)\<rparr>)"
  proof -
    have "\<forall>i \<in> set (ids (tree s)). i < next_id s"
      using assms(1) by (simp add: frame_pre_def fresh_ok_def)
    from ids_insertAfter_bound[OF this assms(3), of node]
    show ?thesis using assms(1) by (simp add: frame_pre_def fresh_ok_def)
  qed
  moreover have "occ_big b (s\<lparr>tree := insertAfter f node (tree s)\<rparr>)"
    using assms(1) by (simp add: frame_pre_def occ_big_def)
  ultimately show ?thesis by (simp add: frame_post_def)
qed

lemma frame_stamp:
  assumes "frame_pre b T X s" "b \<le> node" "stamp t node s = Some (inst, s2)"
  shows "frame_post b T s s2 \<and> beyond b (i_parts inst)"
proof -
  let ?s0 = "set_textContent node [] s"
  obtain fragment pairs s1 where c: "clone t ?s0 = ((fragment, pairs), s1)"
    by (metis prod.exhaust)
  note cp = clone_pairs[OF c]
  let ?F = "Text (next_id s1) [] # fragment @ [Text (Suc (next_id s1)) []]"
  from assms(3) c have i: "inst = \<lparr>i_template = t, i_parts = pairs, startNode = Some (next_id s1),
          endNode = Some (Suc (next_id s1))\<rparr>"
    and s2: "s2 = s1\<lparr>next_id := Suc (Suc (next_id s1)),
              tree := insertAfter ?F node (tree s1),
              occupant := (occupant s1)(node \<mapsto> inst)\<rparr>"
    and it: "in_tree node (tree s1)"
    by (auto simp: stamp_def getFragment_def Let_def split: if_splits)
  have p0: "frame_post b T s ?s0" by (rule frame_set_textContent[OF assms(1,2)])
  have n0: "next_id ?s0 = Suc (next_id s)" by (simp add: set_textContent_def)
  have f0: "fresh_ok ?s0" using p0 by (simp add: frame_post_def)
  have t1: "tree s1 = tree ?s0" and o1: "occupant s1 = occupant ?s0"
    and n1: "next_id ?s0 \<le> next_id s1" using cp by simp_all
  have os: "occupant ?s0 = occupant s" by (simp add: set_textContent_def)
  have nb: "node < next_id s1"
  proof -
    from it t1 have "node \<in> set (ids (tree ?s0))" by (simp add: in_tree_def)
    with f0 have "node < next_id ?s0" by (simp add: fresh_ok_def)
    with n1 show ?thesis by simp
  qed
  from assms have nT: "node \<notin> set (ids T)" by (auto simp: frame_pre_def)
  from p0 obtain X0 where X0: "tree ?s0 = T @ X0" by (auto simp: frame_post_def)
  have tr: "tree s2 = T @ insertAfter ?F node X0"
    using t1 X0 nT by (simp add: s2 insertAfter_append)
  have fF: "\<forall>i \<in> set (ids ?F). i < Suc (Suc (next_id s1))"
    using cp by (auto simp: less_Suc_eq)
  have fT: "\<forall>i \<in> set (ids (tree s1)). i < Suc (Suc (next_id s1))"
    using f0 t1 n1 by (auto simp: fresh_ok_def)
  have fr: "fresh_ok s2"
    using ids_insertAfter_bound[OF fT fF, of node] f0 o1 n1 nb
    by (simp add: s2 fresh_ok_def)
  have bn: "b \<le> next_id s1" using assms(1) n1 n0 by (simp add: frame_pre_def)
  have pb: "beyond b pairs" unfolding beyond_def
  proof
    fix n assume "n \<in> snd ` set pairs"
    then obtain p where "(p, n) \<in> set pairs" by auto
    with cp have "next_id ?s0 \<le> n" by auto
    with assms(1) n0 show "b \<le> n" by (simp add: frame_pre_def)
  qed
  have ob0: "occ_big b s" using assms(1) by (simp add: frame_pre_def)
  have ob: "occ_big b s2"
    unfolding occ_big_def
  proof (intro allI impI)
    fix x j assume x: "b \<le> x" and o: "occupant s2 x = Some j"
    show "(\<forall>st. startNode j = Some st \<longrightarrow> b \<le> st) \<and> beyond b (i_parts j)"
    proof (cases "x = node")
      case True
      with o have "j = inst" by (simp add: s2)
      with bn pb show ?thesis by (simp add: i)
    next
      case False
      with o have "occupant s x = Some j" by (simp add: s2 o1 os)
      with ob0 x show ?thesis unfolding occ_big_def by blast
    qed
  qed
  have "next_id s \<le> next_id s2" using n1 n0 by (simp add: s2)
  moreover have "\<forall>x. x < b \<longrightarrow> occupant s2 x = occupant s x"
    using assms(2) by (simp add: s2 o1 os)
  ultimately show ?thesis using tr fr ob pb by (simp add: frame_post_def i)
qed

lemma frame_pre_restore:
  assumes "frame_pre b T X s" "frame_post b [] (s\<lparr>tree := []\<rparr>) sf"
  shows "frame_pre b T X (sf\<lparr>tree := tree s\<rparr>)"
    and "\<forall>i \<in> set (ids (tree sf)). i < next_id (sf\<lparr>tree := tree s\<rparr>)"
    and "next_id s \<le> next_id sf"
    and "\<forall>x. x < b \<longrightarrow> occupant sf x = occupant s x"
proof -
  from assms(2) have n: "next_id s \<le> next_id sf" and f: "fresh_ok sf" and o: "occ_big b sf"
    by (simp_all add: frame_post_def)
  from assms(1) have t: "tree s = T @ X" and tb: "\<forall>i \<in> set (ids T). i < b"
    and bn: "b \<le> next_id s" and fs: "fresh_ok s"
    by (simp_all add: frame_pre_def)
  have "\<forall>i \<in> set (ids (tree s)). i < next_id sf"
    using fs n by (auto simp: fresh_ok_def)
  with f have "fresh_ok (sf\<lparr>tree := tree s\<rparr>)" by (simp add: fresh_ok_def)
  moreover have "occ_big b (sf\<lparr>tree := tree s\<rparr>)" using o by (simp add: occ_big_def)
  ultimately show "frame_pre b T X (sf\<lparr>tree := tree s\<rparr>)"
    using t tb bn n by (simp add: frame_pre_def)
  show "\<forall>i \<in> set (ids (tree sf)). i < next_id (sf\<lparr>tree := tree s\<rparr>)"
    using f by (simp add: fresh_ok_def)
  show "next_id s \<le> next_id sf" by (rule n)
  show "\<forall>x. x < b \<longrightarrow> occupant sf x = occupant s x"
    using assms(2) by (simp add: frame_post_def)
qed

lemma frame_pre_empty:
  assumes "frame_pre b T X s"
  shows "frame_pre b [] [] (s\<lparr>tree := []\<rparr>)"
  using assms by (simp add: frame_pre_def fresh_ok_def occ_big_def)

lemma frame_pre_marker:
  assumes "frame_pre b T X s"
  shows "frame_pre b T (X @ [Text (next_id s) []])
           (s\<lparr>tree := tree s @ [Text (next_id s) []], next_id := Suc (next_id s)\<rparr>)"
proof -
  let ?s0 = "s\<lparr>tree := tree s @ [Text (next_id s) []], next_id := Suc (next_id s)\<rparr>"
  from assms have t: "tree s = T @ X" and tb: "\<forall>i \<in> set (ids T). i < b"
    and bn: "b \<le> next_id s" and fs: "fresh_ok s" and o: "occ_big b s"
    by (simp_all add: frame_pre_def)
  have "fresh_ok ?s0" using fs by (auto simp: fresh_ok_def less_Suc_eq)
  moreover have "occ_big b ?s0" using o by (simp add: occ_big_def)
  ultimately show ?thesis using t tb bn by (simp add: frame_pre_def)
qed

lemma frame_pre_console:
  "frame_pre b T X s \<Longrightarrow> frame_pre b T X (s\<lparr>console := c\<rparr>)"
  by (simp add: frame_pre_def fresh_ok_def occ_big_def)

lemma frame_post_console:
  "frame_post b T (s\<lparr>console := c\<rparr>) s' \<Longrightarrow> frame_post b T s s'"
  by (simp add: frame_post_def)

lemma frame_pre_put_attribute:
  assumes "frame_pre b T X s" "b \<le> node"
  shows "frame_post b T s (s\<lparr>tree := put_attribute node name v (tree s)\<rparr>)"
proof -
  from assms have "node \<notin> set (ids T)" by (auto simp: frame_pre_def)
  then have "put_attribute node name v (tree s) = T @ put_attribute node name v X"
    using assms(1) by (simp add: frame_pre_def put_attribute_append)
  then show ?thesis
    using assms(1) by (simp add: frame_pre_def frame_post_def fresh_ok_def occ_big_def)
qed

lemma frame_update:
  shows "\<forall>T X s'. list_all supported values \<longrightarrow> frame_pre b T X s \<longrightarrow>
           beyond b pairs \<longrightarrow>
           update_parts pairs values vi s = Some s' \<longrightarrow> frame_post b T s s'"
    and "\<forall>T X s'. value_ok s v \<longrightarrow> frame_pre b T X s \<longrightarrow> b \<le> node \<longrightarrow>
           renderValue v node s = Some s' \<longrightarrow> frame_post b T s s'"
    and "\<forall>T X s'. list_all supported items \<longrightarrow> frame_pre b T X s \<longrightarrow>
           render_items items s = Some s' \<longrightarrow> frame_post b T s s'"
proof (induction pairs "values" vi s and v node s and items s
       rule: update_induct[where S = "\<lambda>v node s. \<forall>T X s'. supported v \<longrightarrow> frame_pre b T X s \<longrightarrow>
           b \<le> node \<longrightarrow> render_slot v node s = Some s' \<longrightarrow> frame_post b T s s'"])
  case (Nil "values" vi s)
  show ?case by (auto intro: frame_post_refl)
next
  case (Attribute i name strings node pairs "values" vi s)
  show ?case
  proof (intro allI impI)
    fix T X s'
    assume sv: "list_all supported values" and pre: "frame_pre b T X s"
      and big: "beyond b ((AttributePart i name strings, node) # pairs)"
      and u: "update_parts ((AttributePart i name strings, node) # pairs) values vi s = Some s'"
    let ?text = "fst (attribute_text strings values vi [])"
    from u obtain root where sa: "setAttribute node name ?text (tree s) = Some root"
      and u1: "update_parts pairs values (snd (attribute_text strings values vi []))
                 (s\<lparr>tree := root\<rparr>) = Some s'"
      by (auto simp: update_parts_Attribute simp del: update_parts.simps split: option.splits)
    let ?s1 = "s\<lparr>tree := root\<rparr>"
    from sa have root: "root = put_attribute node name ?text (tree s)"
      by (simp add: setAttribute_Some)
    from big have bn: "b \<le> node" and big': "beyond b pairs" by simp_all
    have p1: "frame_post b T s ?s1" unfolding root by (rule frame_pre_put_attribute[OF pre bn])
    from frame_post_pre[OF pre p1] obtain X1 where pre1: "frame_pre b T X1 ?s1" by blast
    have "frame_post b T ?s1 s'"
      by (rule Attribute[OF sa, rule_format, OF sv pre1 big' u1])
    with p1 show "frame_post b T s s'" by (rule frame_post_trans)
  qed
next
  case (Node i node pairs "values" vi s)
  show ?case
  proof (intro allI impI)
    fix T X s'
    assume sv: "list_all supported values" and pre: "frame_pre b T X s"
      and big: "beyond b ((NodePart i, node) # pairs)"
      and u: "update_parts ((NodePart i, node) # pairs) values vi s = Some s'"
    from u obtain v es s1 where g: "getValue (value_at values vi) = Some (v, es)"
      and r: "render_slot v node (s\<lparr>console := console s @ es\<rparr>) = Some s1"
      and u1: "update_parts pairs values (Suc vi) s1 = Some s'"
      by (auto simp: update_parts_Node simp del: update_parts.simps split: option.splits)
    have sup: "supported v"
      using supported_getValue[OF g] supported_value_at[OF sv] by simp
    from big have bn: "b \<le> node" and big': "beyond b pairs" by simp_all
    have pre0: "frame_pre b T X (s\<lparr>console := console s @ es\<rparr>)"
      by (rule frame_pre_console[OF pre])
    have p1: "frame_post b T (s\<lparr>console := console s @ es\<rparr>) s1"
      by (rule Node(1)[OF g, rule_format, OF sup pre0 bn r])
    from frame_post_pre[OF pre0 p1] obtain X1 where pre1: "frame_pre b T X1 s1" by blast
    have "frame_post b T s1 s'"
      by (rule Node(2)[OF g r, rule_format, OF sv pre1 big' u1])
    with p1 have "frame_post b T (s\<lparr>console := console s @ es\<rparr>) s'"
      by (rule frame_post_trans)
    then show "frame_post b T s s'" by (rule frame_post_console)
  qed
next
  case (Array v items node s)
  show ?case
  proof (intro allI impI)
    fix T X s'
    assume sup: "supported v" and pre: "frame_pre b T X s" and bn: "b \<le> node"
      and r: "render_slot v node s = Some s'"
    from r Array(1) obtain sf where ri: "render_items items (s\<lparr>tree := []\<rparr>) = Some sf"
      and rv: "renderValue (VFragment (tree sf)) node (sf\<lparr>tree := tree s\<rparr>) = Some s'"
      by (auto simp: render_slot_def simp del: renderValue.simps split: option.splits)
    from sup Array(1) have sv: "list_all supported items" by (rule supported_items)
    have pre0: "frame_pre b [] [] (s\<lparr>tree := []\<rparr>)" by (rule frame_pre_empty[OF pre])
    have pf: "frame_post b [] (s\<lparr>tree := []\<rparr>) sf"
      by (rule Array(2)[rule_format, OF sv pre0 ri])
    note rs = frame_pre_restore[OF pre pf]
    have vo: "value_ok (sf\<lparr>tree := tree s\<rparr>) (VFragment (tree sf))"
      using rs(2) by (simp add: value_ok_def)
    have p2: "frame_post b T (sf\<lparr>tree := tree s\<rparr>) s'"
      by (rule Array(3)[OF ri, rule_format, OF vo rs(1) bn rv])
    show "frame_post b T s s'"
      using p2 rs(3,4) by (simp add: frame_post_def)
  qed
next
  case (Fragment f node s)
  show ?case
  proof (intro allI impI)
    fix T X s'
    assume vo: "value_ok s (VFragment f)" and pre: "frame_pre b T X s" and bn: "b \<le> node"
      and r: "renderValue (VFragment f) node s = Some s'"
    from r obtain s1 where v: "vacate (VFragment f) node s = Some s1"
      and s': "s' = s1\<lparr>tree := insertAfter f node (tree s1)\<rparr>"
      by (auto simp: renderValue_Fragment simp del: renderValue.simps
            split: option.splits if_splits)
    from frame_vacate[OF pre bn v] have p1: "frame_post b T s s1" and n1: "next_id s1 = next_id s"
      by simp_all
    from frame_post_pre[OF pre p1] obtain X1 where pre1: "frame_pre b T X1 s1" by blast
    have "\<forall>i \<in> set (ids f). i < next_id s1" using vo n1 by (simp add: value_ok_def)
    from frame_insertAfter[OF pre1 bn this] have "frame_post b T s1 s'" by (simp add: s')
    with p1 show "frame_post b T s s'" by (rule frame_post_trans)
  qed
next
  case (Result t vs node s)
  show ?case
  proof (intro allI impI)
    fix T X s'
    assume vo: "value_ok s (VResult t vs)" and pre: "frame_pre b T X s" and bn: "b \<le> node"
      and r: "renderValue (VResult t vs) node s = Some s'"
    from vo have sv: "list_all supported vs" by (simp add: value_ok_def)
    show "frame_post b T s s'"
    proof (cases "occupant s node")
      case None
      with r obtain inst s2 where st: "stamp t node s = Some (inst, s2)"
        and u: "update_parts (i_parts inst) vs 0 s2 = Some s'"
        by (auto simp: renderValue_Result simp del: renderValue.simps split: option.splits)
      from frame_stamp[OF pre bn st] have p2: "frame_post b T s s2"
        and big: "beyond b (i_parts inst)" by simp_all
      from frame_post_pre[OF pre p2] obtain X2 where pre2: "frame_pre b T X2 s2" by blast
      have "frame_post b T s2 s'"
        by (rule Result(1)[OF None st, rule_format, OF sv pre2 big u])
      with p2 show ?thesis by (rule frame_post_trans)
    next
      case (Some old)
      show ?thesis
      proof (cases "tid (i_template old) = tid t")
        case True
        with r Some have u: "update_parts (i_parts old) vs 0 s = Some s'"
          by (simp add: renderValue_Result del: renderValue.simps)
        from pre have "occ_big b s" by (simp add: frame_pre_def)
        with bn Some have big: "beyond b (i_parts old)"
          unfolding occ_big_def by blast
        show ?thesis
          by (rule Result(2)[OF Some True, rule_format, OF sv pre big u])
      next
        case False
        with r Some obtain s1 inst s2 where c: "cleanup node s = Some s1"
          and st: "stamp t node s1 = Some (inst, s2)"
          and u: "update_parts (i_parts inst) vs 0 s2 = Some s'"
          by (auto simp: renderValue_Result simp del: renderValue.simps split: option.splits)
        from frame_cleanup[OF pre bn c] have p1: "frame_post b T s s1" .
        from frame_post_pre[OF pre p1] obtain X1 where pre1: "frame_pre b T X1 s1" by blast
        from frame_stamp[OF pre1 bn st] have p2: "frame_post b T s1 s2"
          and big: "beyond b (i_parts inst)" by simp_all
        from frame_post_pre[OF pre1 p2] obtain X2 where pre2: "frame_pre b T X2 s2" by blast
        have "frame_post b T s2 s'"
          by (rule Result(3)[OF Some False c st, rule_format, OF sv pre2 big u])
        with p2 have "frame_post b T s1 s'" by (rule frame_post_trans)
        with p1 show ?thesis by (rule frame_post_trans)
      qed
    qed
  qed
next
  case (Text v node s)
  show ?case
  proof (intro allI impI)
    fix T X s'
    assume pre: "frame_pre b T X s" and bn: "b \<le> node"
      and r: "renderValue v node s = Some s'"
    from r obtain s1 where va: "vacate v node s = Some s1"
      and s': "s' = set_textContent node (text_of v) s1"
      by (auto simp: renderValue_text[OF Text] simp del: renderValue.simps)
    from frame_vacate[OF pre bn va] have p1: "frame_post b T s s1" by simp
    from frame_post_pre[OF pre p1] obtain X1 where pre1: "frame_pre b T X1 s1" by blast
    from frame_set_textContent[OF pre1 bn] have "frame_post b T s1 s'" by (simp add: s')
    with p1 show "frame_post b T s s'" by (rule frame_post_trans)
  qed
next
  case (ItemsNil s)
  show ?case by (auto intro: frame_post_refl)
next
  case (ItemsCons item items s)
  show ?case
  proof (intro allI impI)
    fix T X s'
    assume sv: "list_all supported (item # items)" and pre: "frame_pre b T X s"
      and r: "render_items (item # items) s = Some s'"
    let ?s0 = "s\<lparr>tree := tree s @ [Text (next_id s) []], next_id := Suc (next_id s)\<rparr>"
    from r obtain s1 where rv: "renderValue item (next_id s) ?s0 = Some s1"
      and ri: "render_items items s1 = Some s'"
      by (auto simp del: renderValue.simps split: option.splits)
    have pre0: "frame_pre b T (X @ [Text (next_id s) []]) ?s0"
      by (rule frame_pre_marker[OF pre])
    have vo: "value_ok ?s0 item" using sv by (cases item) (simp_all add: value_ok_def)
    from sv have sv': "list_all supported items" by simp
    have bn: "b \<le> next_id s" using pre by (simp add: frame_pre_def)
    have p1: "frame_post b T ?s0 s1"
      by (rule ItemsCons(1)[rule_format, OF vo pre0 bn rv])
    from frame_post_pre[OF pre0 p1] obtain X1 where pre1: "frame_pre b T X1 s1" by blast
    have "frame_post b T s1 s'"
      by (rule ItemsCons(2)[OF rv, rule_format, OF sv' pre1 ri])
    with p1 have "frame_post b T ?s0 s'" by (rule frame_post_trans)
    then show "frame_post b T s s'" by (simp add: frame_post_def)
  qed
next
  case (Slot v node s)
  show ?case
  proof (intro allI impI)
    fix T X s'
    assume sup: "supported v" and pre: "frame_pre b T X s" and bn: "b \<le> node"
      and r: "render_slot v node s = Some s'"
    from Slot(1) r have rv: "renderValue v node s = Some s'"
      by (simp add: render_slot_def del: renderValue.simps)
    have vo: "value_ok s v" using sup by (cases v) (simp_all add: value_ok_def)
    show "frame_post b T s s'"
      by (rule Slot(2)[rule_format, OF vo pre bn rv])
  qed
qed

section \<open>Iterables\<close>

subsection \<open>An update without the first nodes of the tree\<close>

text \<open>
  The state with the nodes \<open>T\<close> in front of its tree.
\<close>

definition under :: "node list \<Rightarrow> state \<Rightarrow> state" where
  "under T s = s\<lparr>tree := T @ tree s\<rparr>"

lemma under_fields [simp]:
  "tree (under T s) = T @ tree s" "occupant (under T s) = occupant s"
  "next_id (under T s) = next_id s" "console (under T s) = console s"
  by (simp_all add: under_def)

lemma under_tree [simp]: "(under T s)\<lparr>tree := Y\<rparr> = s\<lparr>tree := Y\<rparr>"
  by (simp add: under_def)

lemma tree_self [simp]: "s\<lparr>tree := tree s\<rparr> = s"
  by simp

lemma under_console: "under T (s\<lparr>console := c\<rparr>) = (under T s)\<lparr>console := c\<rparr>"
  by (simp add: under_def)

lemma frame_pre_split: "frame_pre b T X s \<Longrightarrow> s = under T (s\<lparr>tree := X\<rparr>)"
  by (simp add: frame_pre_def under_def)

lemma frame_pre_under:
  assumes "frame_pre b T X s" "frame_post b T s (under T s1)"
  shows "frame_pre b T (tree s1) (under T s1)"
  using assms by (auto simp: frame_pre_def frame_post_def)

lemma find_node_append_absent: "k \<notin> set (ids T) \<Longrightarrow> find_node k (T @ X) = find_node k X"
proof -
  assume "k \<notin> set (ids T)"
  then have "find (\<lambda>n. nid n = k) (nodes T) = None"
    by (auto simp: find_None_iff ids_def)
  moreover have "nodes (T @ X) = nodes T @ nodes X"
    by (induction T rule: nodes.induct) auto
  ultimately show ?thesis by (simp add: find_node_def find_app)
qed

lemma frame_absent: "frame_pre b T X s \<Longrightarrow> b \<le> k \<Longrightarrow> k \<notin> set (ids T)"
  by (auto simp: frame_pre_def)

lemma frame_find: "frame_pre b T X s \<Longrightarrow> b \<le> k \<Longrightarrow> find_node k (tree s) = find_node k X"
  using frame_absent[of b T X s k] by (simp add: frame_pre_def find_node_append_absent)

lemma frame_in_tree: "frame_pre b T X s \<Longrightarrow> b \<le> k \<Longrightarrow> in_tree k (tree s) = in_tree k X"
  using frame_absent[of b T X s k] by (simp add: frame_pre_def in_tree_def)

lemma setAttribute_under:
  assumes "frame_pre b T X s" "b \<le> node"
  shows "setAttribute node name v (tree s) = map_option (\<lambda>r. T @ r) (setAttribute node name v X)"
proof -
  note a = frame_absent[OF assms]
  have t: "tree s = T @ X" using assms(1) by (simp add: frame_pre_def)
  have f: "find_node node (T @ X) = find_node node X" by (rule find_node_append_absent[OF a])
  show ?thesis
    by (simp add: setAttribute_def t f put_attribute_append[OF a]
          split: option.splits node.splits)
qed

lemma cleanup_under:
  assumes "frame_pre b T X s" "b \<le> node"
  shows "cleanup node s = map_option (under T) (cleanup node (s\<lparr>tree := X\<rparr>))"
proof (cases "occupant s node")
  case None
  then show ?thesis by (simp add: cleanup_def)
next
  case (Some inst)
  show ?thesis
  proof (cases "startNode inst")
    case None
    with Some show ?thesis by (simp add: cleanup_def)
  next
    case (Some start)
    from assms \<open>occupant s node = Some inst\<close> Some have "b \<le> start"
      by (auto simp: frame_pre_def occ_big_def)
    note a = frame_absent[OF assms(1) this]
    have t: "tree s = T @ X" using assms(1) by (simp add: frame_pre_def)
    from a have i: "in_tree start (T @ X) = in_tree start X" by (simp add: in_tree_def)
    show ?thesis
      using \<open>occupant s node = Some inst\<close> Some
      by (simp add: cleanup_def t i cleanup_from_append[OF a] under_def)
  qed
qed

lemma vacate_under:
  assumes "frame_pre b T X s" "b \<le> node"
  shows "vacate v node s = map_option (under T) (vacate v node (s\<lparr>tree := X\<rparr>))"
  using cleanup_under[OF assms] frame_pre_split[OF assms(1)]
  by (auto simp: vacate_def split: option.splits)

lemma set_textContent_under:
  assumes "frame_pre b T X s" "b \<le> node"
  shows "set_textContent node str s = under T (set_textContent node str (s\<lparr>tree := X\<rparr>))"
proof -
  note a = frame_absent[OF assms]
  have t: "tree s = T @ X" using assms(1) by (simp add: frame_pre_def)
  show ?thesis by (simp add: set_textContent_def t set_text_append[OF a] under_def)
qed

lemma insert_under:
  assumes "frame_pre b T X s" "b \<le> node"
  shows "s\<lparr>tree := insertAfter f node (tree s)\<rparr> =
         under T (s\<lparr>tree := insertAfter f node X\<rparr>)"
proof -
  note a = frame_absent[OF assms]
  have t: "tree s = T @ X" using assms(1) by (simp add: frame_pre_def)
  show ?thesis by (simp add: t insertAfter_append[OF a] under_def)
qed

lemma getFragment_under:
  "getFragment t (under T s) =
     (case getFragment t s of ((inst, F), s1) \<Rightarrow> ((inst, F), under T s1))"
  by (simp add: getFragment_def clone_def under_def split_beta Let_def)

lemma stamp_under:
  assumes "frame_pre b T X s" "b \<le> node"
  shows "stamp t node s =
         map_option (\<lambda>(inst, s2). (inst, under T s2)) (stamp t node (s\<lparr>tree := X\<rparr>))"
proof -
  note a = frame_absent[OF assms]
  let ?s0 = "set_textContent node [] (s\<lparr>tree := X\<rparr>)"
  obtain inst F s1 where g: "getFragment t ?s0 = ((inst, F), s1)" by (metis prod.exhaust)
  then have t1: "tree s1 = tree ?s0"
    by (auto simp: getFragment_def clone_def split_beta Let_def)
  have i: "in_tree node (T @ tree s1) = in_tree node (tree s1)"
    using a by (simp add: in_tree_def)
  show ?thesis
    unfolding stamp_def set_textContent_under[OF assms] getFragment_under g
    by (simp add: i insertAfter_append[OF a] under_def)
qed

lemma seq_under:
  assumes "f = map_option (under T) f'"
    and "\<And>s1. f' = Some s1 \<Longrightarrow> g (under T s1) = map_option (under T) (g' s1)"
  shows "(case f of None \<Rightarrow> None | Some s1 \<Rightarrow> g s1) =
         map_option (under T) (case f' of None \<Rightarrow> None | Some s1 \<Rightarrow> g' s1)"
  using assms by (cases f') auto

lemma slot_frame:
  assumes "frame_pre b T X s" "b \<le> node" "supported v" "\<not> is_function v"
    and "render_slot v node s = Some s'"
  shows "frame_post b T s s'"
proof -
  have g: "getValue (value_at [v] 0) = Some (v, [])"
    using assms(4) by (simp add: value_at_def getValue_value)
  have "update_parts [(NodePart 0, node)] [v] 0 s = Some s'"
    using assms(5) g
    by (simp add: update_parts_Node del: update_parts.simps(3) renderValue.simps)
  from frame_update(1)[rule_format, OF _ assms(1) _ this] assms(2,3) show ?thesis by simp
qed

lemma swap_console: "(s\<lparr>tree := X\<rparr>)\<lparr>console := c\<rparr> = (s\<lparr>console := c\<rparr>)\<lparr>tree := X\<rparr>"
  by simp

text \<open>
  An update that works on nodes from \<open>b\<close> on does to its part of the tree what it
  does when the nodes made before \<open>b\<close> are not there.
\<close>

lemma frame_commute:
  shows "\<forall>T X. list_all supported values \<longrightarrow> frame_pre b T X s \<longrightarrow> beyond b pairs \<longrightarrow>
           update_parts pairs values vi s =
             map_option (under T) (update_parts pairs values vi (s\<lparr>tree := X\<rparr>))"
    and "\<forall>T X. value_ok s v \<longrightarrow> frame_pre b T X s \<longrightarrow> b \<le> node \<longrightarrow>
           renderValue v node s = map_option (under T) (renderValue v node (s\<lparr>tree := X\<rparr>))"
    and "\<forall>T X. list_all supported items \<longrightarrow> frame_pre b T X s \<longrightarrow>
           render_items items s = map_option (under T) (render_items items (s\<lparr>tree := X\<rparr>))"
proof (induction pairs "values" vi s and v node s and items s
       rule: update_induct[where S = "\<lambda>v node s. \<forall>T X. supported v \<longrightarrow> \<not> is_function v \<longrightarrow>
           frame_pre b T X s \<longrightarrow> b \<le> node \<longrightarrow>
           render_slot v node s = map_option (under T) (render_slot v node (s\<lparr>tree := X\<rparr>))"])
  case (Nil "values" vi s)
  show ?case by (auto simp: frame_pre_def under_def)
next
  case (Attribute i name strings node pairs "values" vi s)
  show ?case
  proof (intro allI impI)
    fix T X
    assume sv: "list_all supported values" and pre: "frame_pre b T X s"
      and big: "beyond b ((AttributePart i name strings, node) # pairs)"
    from big have bn: "b \<le> node" and big': "beyond b pairs" by simp_all
    let ?text = "fst (attribute_text strings values vi [])"
    let ?vi = "snd (attribute_text strings values vi [])"
    note su = setAttribute_under[OF pre bn, of name ?text]
    show "update_parts ((AttributePart i name strings, node) # pairs) values vi s =
          map_option (under T)
            (update_parts ((AttributePart i name strings, node) # pairs) values vi (s\<lparr>tree := X\<rparr>))"
    proof (cases "setAttribute node name ?text X")
      case None
      with su show ?thesis
        by (simp add: update_parts_Attribute del: update_parts.simps)
    next
      case (Some X1)
      with su have sa: "setAttribute node name ?text (tree s) = Some (T @ X1)" by simp
      from Some have X1: "X1 = put_attribute node name ?text X" by (simp add: setAttribute_Some)
      have t: "T @ X1 = put_attribute node name ?text (tree s)"
        using sa by (simp add: setAttribute_Some)
      have p1: "frame_post b T s (s\<lparr>tree := T @ X1\<rparr>)"
        unfolding t by (rule frame_pre_put_attribute[OF pre bn])
      have pre1: "frame_pre b T X1 (s\<lparr>tree := T @ X1\<rparr>)"
        using pre p1 by (auto simp: frame_pre_def frame_post_def)
      have "update_parts pairs values ?vi (s\<lparr>tree := T @ X1\<rparr>) =
            map_option (under T) (update_parts pairs values ?vi ((s\<lparr>tree := T @ X1\<rparr>)\<lparr>tree := X1\<rparr>))"
        by (rule Attribute[OF sa, rule_format, OF sv pre1 big'])
      with sa Some show ?thesis
        by (simp add: update_parts_Attribute del: update_parts.simps)
    qed
  qed
next
  case (Node i node pairs "values" vi s)
  show ?case
  proof (intro allI impI)
    fix T X
    assume sv: "list_all supported values" and pre: "frame_pre b T X s"
      and big: "beyond b ((NodePart i, node) # pairs)"
    from big have bn: "b \<le> node" and big': "beyond b pairs" by simp_all
    show "update_parts ((NodePart i, node) # pairs) values vi s =
          map_option (under T)
            (update_parts ((NodePart i, node) # pairs) values vi (s\<lparr>tree := X\<rparr>))"
    proof (cases "getValue (value_at values vi)")
      case None
      then show ?thesis by (simp add: update_parts_Node del: update_parts.simps)
    next
      case (Some r)
      obtain v es where r: "r = (v, es)" by (cases r)
      note g = Some[unfolded r]
      have sup: "supported v"
        using supported_getValue[OF g] supported_value_at[OF sv] by simp
      have nf: "\<not> is_function v" using g by (rule getValue_not_function)
      let ?sc = "s\<lparr>console := console s @ es\<rparr>"
      have pre0: "frame_pre b T X ?sc" by (rule frame_pre_console[OF pre])
      have 1: "render_slot v node ?sc =
               map_option (under T) (render_slot v node (?sc\<lparr>tree := X\<rparr>))"
        by (rule Node(1)[OF g, rule_format, OF sup nf pre0 bn])
      have 2: "update_parts pairs values (Suc vi) (under T s1) =
               map_option (under T) (update_parts pairs values (Suc vi) s1)"
        if a: "render_slot v node (?sc\<lparr>tree := X\<rparr>) = Some s1" for s1
      proof -
        from 1 a have l: "render_slot v node ?sc = Some (under T s1)" by simp
        have p1: "frame_post b T ?sc (under T s1)"
          by (rule slot_frame[OF pre0 bn sup nf l])
        have pre1: "frame_pre b T (tree s1) (under T s1)"
          by (rule frame_pre_under[OF pre0 p1])
        from Node(2)[OF g l, rule_format, OF sv pre1 big'] show ?thesis by simp
      qed
      from seq_under[of "render_slot v node ?sc" T "render_slot v node (?sc\<lparr>tree := X\<rparr>)"
             "update_parts pairs values (Suc vi)" "update_parts pairs values (Suc vi)", OF 1 2]
      show ?thesis
        by (simp add: update_parts_Node g swap_console del: update_parts.simps)
    qed
  qed
next
  case (Array v items node s)
  show ?case
  proof (intro allI impI)
    fix T X
    assume sup: "supported v" and pre: "frame_pre b T X s" and bn: "b \<le> node"
    from sup Array(1) have sv: "list_all supported items" by (rule supported_items)
    have pre0: "frame_pre b [] [] (s\<lparr>tree := []\<rparr>)" by (rule frame_pre_empty[OF pre])
    show "render_slot v node s = map_option (under T) (render_slot v node (s\<lparr>tree := X\<rparr>))"
    proof (cases "render_items items (s\<lparr>tree := []\<rparr>)")
      case None
      then show ?thesis using Array(1) by (simp add: render_slot_def del: renderValue.simps)
    next
      case (Some sf)
      have pf: "frame_post b [] (s\<lparr>tree := []\<rparr>) sf"
        by (rule frame_update(3)[rule_format, OF sv pre0 Some])
      note rs = frame_pre_restore[OF pre pf]
      have vo: "value_ok (sf\<lparr>tree := tree s\<rparr>) (VFragment (tree sf))"
        using rs(2) by (simp add: value_ok_def)
      have t: "tree s = T @ X" using pre by (simp add: frame_pre_def)
      have "renderValue (VFragment (tree sf)) node (sf\<lparr>tree := tree s\<rparr>) =
            map_option (under T)
              (renderValue (VFragment (tree sf)) node ((sf\<lparr>tree := tree s\<rparr>)\<lparr>tree := X\<rparr>))"
        by (rule Array(3)[OF Some, rule_format, OF vo rs(1) bn])
      with Some Array(1) show ?thesis
        by (simp add: render_slot_def del: renderValue.simps)
    qed
  qed
next
  case (Fragment f node s)
  show ?case
  proof (intro allI impI)
    fix T X
    assume vo: "value_ok s (VFragment f)" and pre: "frame_pre b T X s" and bn: "b \<le> node"
    note v = vacate_under[OF pre bn, of "VFragment f"]
    show "renderValue (VFragment f) node s =
          map_option (under T) (renderValue (VFragment f) node (s\<lparr>tree := X\<rparr>))"
    proof (cases "vacate (VFragment f) node (s\<lparr>tree := X\<rparr>)")
      case None
      with v show ?thesis by (simp add: renderValue_Fragment del: renderValue.simps)
    next
      case (Some s1)
      with v have l: "vacate (VFragment f) node s = Some (under T s1)" by simp
      from frame_vacate[OF pre bn l] have p1: "frame_post b T s (under T s1)" by simp
      have pre1: "frame_pre b T (tree s1) (under T s1)" by (rule frame_pre_under[OF pre p1])
      have i: "in_tree node (tree (under T s1)) = in_tree node (tree s1)"
        by (rule frame_in_tree[OF pre1 bn])
      from insert_under[OF pre1 bn, of f] i l Some show ?thesis
        by (simp add: renderValue_Fragment del: renderValue.simps)
    qed
  qed
next
  case (Result t vs node s)
  show ?case
  proof (intro allI impI)
    fix T X
    assume vo: "value_ok s (VResult t vs)" and pre: "frame_pre b T X s" and bn: "b \<le> node"
    from vo have sv: "list_all supported vs" by (simp add: value_ok_def)
    have stamped: "(case stamp t node s0 of None \<Rightarrow> None
                     | Some (inst, s2) \<Rightarrow> update_parts (i_parts inst) vs 0 s2) =
            map_option (under T)
              (case stamp t node (s0\<lparr>tree := X0\<rparr>) of None \<Rightarrow> None
               | Some (inst, s2) \<Rightarrow> update_parts (i_parts inst) vs 0 s2)"
      if pre0: "frame_pre b T X0 s0"
        and ih: "\<And>inst s2. stamp t node s0 = Some (inst, s2) \<Longrightarrow>
                  \<forall>T X. list_all supported vs \<longrightarrow> frame_pre b T X s2 \<longrightarrow> beyond b (i_parts inst) \<longrightarrow>
                    update_parts (i_parts inst) vs 0 s2 =
                    map_option (under T) (update_parts (i_parts inst) vs 0 (s2\<lparr>tree := X\<rparr>))"
      for s0 X0
    proof (cases "stamp t node (s0\<lparr>tree := X0\<rparr>)")
      case None
      with stamp_under[OF pre0 bn, of t] show ?thesis by simp
    next
      case (Some r)
      obtain inst s2 where r: "r = (inst, s2)" by (cases r)
      from Some r stamp_under[OF pre0 bn, of t]
      have l: "stamp t node s0 = Some (inst, under T s2)" by simp
      from frame_stamp[OF pre0 bn l] have p2: "frame_post b T s0 (under T s2)"
        and big: "beyond b (i_parts inst)" by simp_all
      have pre2: "frame_pre b T (tree s2) (under T s2)" by (rule frame_pre_under[OF pre0 p2])
      from ih[OF l, rule_format, OF sv pre2 big] l Some r show ?thesis by simp
    qed
    show "renderValue (VResult t vs) node s =
          map_option (under T) (renderValue (VResult t vs) node (s\<lparr>tree := X\<rparr>))"
    proof (cases "occupant s node")
      case None
      from stamped[OF pre Result(1)[OF None]] None show ?thesis
        by (simp add: renderValue_Result del: renderValue.simps)
    next
      case (Some old)
      show ?thesis
      proof (cases "tid (i_template old) = tid t")
        case True
        from pre have "occ_big b s" by (simp add: frame_pre_def)
        with bn Some have big: "beyond b (i_parts old)"
          unfolding occ_big_def by blast
        from Result(2)[OF Some True, rule_format, OF sv pre big] Some True show ?thesis
          by (simp add: renderValue_Result del: renderValue.simps)
      next
        case False
        note c = cleanup_under[OF pre bn]
        show ?thesis
        proof (cases "cleanup node (s\<lparr>tree := X\<rparr>)")
          case None
          with c Some False show ?thesis
            by (simp add: renderValue_Result del: renderValue.simps)
        next
          case (Some s1)
          with c have l: "cleanup node s = Some (under T s1)" by simp
          from frame_cleanup[OF pre bn l] have p1: "frame_post b T s (under T s1)" .
          have pre1: "frame_pre b T (tree s1) (under T s1)" by (rule frame_pre_under[OF pre p1])
          from stamped[OF pre1 Result(3)[OF \<open>occupant s node = Some old\<close> False l]]
            \<open>occupant s node = Some old\<close> False l Some
          show ?thesis by (simp add: renderValue_Result del: renderValue.simps)
        qed
      qed
    qed
  qed
next
  case (Text v node s)
  show ?case
  proof (intro allI impI)
    fix T X
    assume pre: "frame_pre b T X s" and bn: "b \<le> node"
    note va = vacate_under[OF pre bn, of v]
    show "renderValue v node s = map_option (under T) (renderValue v node (s\<lparr>tree := X\<rparr>))"
    proof (cases "vacate v node (s\<lparr>tree := X\<rparr>)")
      case None
      with va show ?thesis by (simp add: renderValue_text[OF Text] del: renderValue.simps)
    next
      case (Some s1)
      with va have l: "vacate v node s = Some (under T s1)" by simp
      from frame_vacate[OF pre bn l] have p1: "frame_post b T s (under T s1)" by simp
      have pre1: "frame_pre b T (tree s1) (under T s1)" by (rule frame_pre_under[OF pre p1])
      from set_textContent_under[OF pre1 bn, of "text_of v"] l Some show ?thesis
        by (simp add: renderValue_text[OF Text] del: renderValue.simps)
    qed
  qed
next
  case (ItemsNil s)
  show ?case by (auto simp: frame_pre_def under_def)
next
  case (ItemsCons item items s)
  show ?case
  proof (intro allI impI)
    fix T X
    assume sv: "list_all supported (item # items)" and pre: "frame_pre b T X s"
    let ?m = "next_id s"
    let ?s0 = "s\<lparr>tree := tree s @ [Text ?m []], next_id := Suc ?m\<rparr>"
    let ?x0 = "s\<lparr>tree := X @ [Text ?m []], next_id := Suc ?m\<rparr>"
    have pre0: "frame_pre b T (X @ [Text ?m []]) ?s0" by (rule frame_pre_marker[OF pre])
    have vo: "value_ok ?s0 item" using sv by (cases item) (simp_all add: value_ok_def)
    from sv have sv': "list_all supported items" by simp
    have bn: "b \<le> ?m" using pre by (simp add: frame_pre_def)
    have x0: "?s0\<lparr>tree := X @ [Text ?m []]\<rparr> = ?x0" by simp
    have 1: "renderValue item ?m ?s0 = map_option (under T) (renderValue item ?m ?x0)"
      using ItemsCons(1)[rule_format, OF vo pre0 bn] by (simp only: x0)
    have 2: "render_items items (under T s1) = map_option (under T) (render_items items s1)"
      if a: "renderValue item ?m ?x0 = Some s1" for s1
    proof -
      from 1 a have l: "renderValue item ?m ?s0 = Some (under T s1)" by simp
      have p1: "frame_post b T ?s0 (under T s1)"
        by (rule frame_update(2)[rule_format, OF vo pre0 bn l])
      have pre1: "frame_pre b T (tree s1) (under T s1)" by (rule frame_pre_under[OF pre0 p1])
      from ItemsCons(2)[OF l, rule_format, OF sv' pre1] show ?thesis by simp
    qed
    from seq_under[of "renderValue item ?m ?s0" T "renderValue item ?m ?x0"
           "render_items items" "render_items items", OF 1 2]
    show "render_items (item # items) s =
          map_option (under T) (render_items (item # items) (s\<lparr>tree := X\<rparr>))"
      by (simp del: renderValue.simps)
  qed
next
  case (Slot v node s)
  show ?case
  proof (intro allI impI)
    fix T X
    assume sup: "supported v" and pre: "frame_pre b T X s" and bn: "b \<le> node"
    have vo: "value_ok s v" using sup by (cases v) (simp_all add: value_ok_def)
    from Slot(2)[rule_format, OF vo pre bn] Slot(1) show
      "render_slot v node s = map_option (under T) (render_slot v node (s\<lparr>tree := X\<rparr>))"
      by (simp add: render_slot_def del: renderValue.simps)
  qed
qed

subsection \<open>The items one by one\<close>

text \<open>
  What the loop over the items of an iterable does for one item, in a tree of its own:
  \<^verbatim>\<open>new Text()\<close> makes the marker, an empty text node, and \<^verbatim>\<open>_renderValue(item, marker)\<close>
  renders the item at it, which is what a node part does with a value except that the
  item is not given to \<^verbatim>\<open>getValue\<close>: for a template result the text of the marker is
  cleared, a new instance is recorded at the marker, its sentinels and its clone are put
  after the marker, and the instance is updated with the values of the result; every
  other item is written to the marker as text. The tree of the state that is returned
  is the segment of the item: the marker, then the nodes of the nested instance if the
  item is a template result.
\<close>

definition render_item :: "val \<Rightarrow> state \<Rightarrow> state option" where
  "render_item item s =
     (let marker = next_id s in
      case item of
        VResult t vs \<Rightarrow>
          (case getFragment t (s\<lparr>tree := [Text marker []], next_id := Suc (Suc marker)\<rparr>) of
             ((inst, fragment), s1) \<Rightarrow>
               update inst vs
                 (s1\<lparr>tree := Text marker [] # fragment,
                     occupant := (occupant s1)(marker \<mapsto> inst)\<rparr>))
      | _ \<Rightarrow> Some (s\<lparr>tree := [Text marker (text_of item)], next_id := Suc (Suc marker)\<rparr>))"

text \<open>
  The items in their order, each rendered at a marker of its own; the segments are
  returned in the order of the items, with the state after the last item.
\<close>

fun each_item :: "val list \<Rightarrow> state \<Rightarrow> (node list list \<times> state) option" where
  "each_item [] s = Some ([], s\<lparr>tree := []\<rparr>)"
| "each_item (item # items) s =
     (case render_item item s of
        None \<Rightarrow> None
      | Some s1 \<Rightarrow>
          (case each_item items s1 of
             None \<Rightarrow> None
           | Some (segs, s2) \<Rightarrow> Some (tree s1 # segs, s2)))"

text \<open>
  The markers of items that are written as text: one text node for each item, in the
  order of the items, with the text of the item (the marker and the write to
  \<^verbatim>\<open>textContent\<close> take one identity each).
\<close>

fun text_markers :: "node_id \<Rightarrow> val list \<Rightarrow> node list" where
  "text_markers m [] = []"
| "text_markers m (item # items) = Text m (text_of item) # text_markers (Suc (Suc m)) items"

lemma render_item_tree [simp]: "render_item item (s\<lparr>tree := Y\<rparr>) = render_item item s"
  by (cases item) (simp_all add: render_item_def Let_def)

lemma each_item_tree [simp]: "each_item items (s\<lparr>tree := Y\<rparr>) = each_item items s"
  by (cases items) simp_all

lemma getFragment_tree:
  "getFragment t s = ((inst, F), s1) \<Longrightarrow> tree s1 = tree s \<and> occupant s1 = occupant s"
  by (auto simp: getFragment_def clone_def split_beta Let_def)

lemma render_item_eq:
  assumes f: "fresh_ok s" and nf: "\<forall>g. item \<noteq> VFragment g"
  shows "renderValue item (next_id s)
           (s\<lparr>tree := [Text (next_id s) []], next_id := Suc (next_id s)\<rparr>) =
         render_item item s"
proof -
  let ?m = "next_id s"
  let ?s0 = "s\<lparr>tree := [Text ?m []], next_id := Suc ?m\<rparr>"
  have o: "occupant ?s0 ?m = None" using f by (simp add: fresh_ok_def)
  show ?thesis
  proof (cases "is_template_result item")
    case False
    from renderValue_text[OF False nf, of ?m ?s0] o False show ?thesis
      by (cases item) (simp_all add: vacate_def render_item_def set_textContent_def Let_def)
  next
    case True
    then obtain t vs where item: "item = VResult t vs" by (cases item) auto
    let ?s1 = "s\<lparr>tree := [Text ?m []], next_id := Suc (Suc ?m)\<rparr>"
    have s1: "set_textContent ?m [] ?s0 = ?s1" by (simp add: set_textContent_def)
    obtain inst F s2 where g: "getFragment t ?s1 = ((inst, F), s2)" by (metis prod.exhaust)
    from getFragment_tree[OF g] have t2: "tree s2 = [Text ?m []]" by simp
    have "stamp t ?m ?s0 =
          Some (inst, s2\<lparr>tree := Text ?m [] # F, occupant := (occupant s2)(?m \<mapsto> inst)\<rparr>)"
      by (simp add: stamp_def s1 g t2 in_tree_simps)
    with o g show ?thesis
      by (simp add: item renderValue_Result render_item_def update_def Let_def
            del: renderValue.simps)
  qed
qed

lemma render_items_each:
  "fresh_ok s \<Longrightarrow> list_all supported items \<Longrightarrow>
   render_items items s =
     map_option (\<lambda>(segs, s2). s2\<lparr>tree := tree s @ concat segs\<rparr>) (each_item items s)"
proof (induction items arbitrary: s)
  case Nil
  then show ?case by simp
next
  case (Cons item items)
  let ?m = "next_id s"
  let ?s0 = "s\<lparr>tree := tree s @ [Text ?m []], next_id := Suc ?m\<rparr>"
  let ?x0 = "s\<lparr>tree := [Text ?m []], next_id := Suc ?m\<rparr>"
  from Cons.prems have sup: "supported item" and sv: "list_all supported items" by simp_all
  have nf: "\<forall>g. item \<noteq> VFragment g" using sup by auto
  have vo: "value_ok ?s0 item" using sup by (cases item) (simp_all add: value_ok_def)
  have pre0: "frame_pre ?m (tree s) [Text ?m []] ?s0"
    using Cons.prems(1) by (auto simp: frame_pre_def fresh_ok_def occ_big_def less_Suc_eq)
  have x0: "?s0\<lparr>tree := [Text ?m []]\<rparr> = ?x0" by simp
  have 1: "renderValue item ?m ?s0 = map_option (under (tree s)) (render_item item s)"
    using frame_commute(2)[rule_format, OF vo pre0 le_refl]
    by (simp only: x0 render_item_eq[OF Cons.prems(1) nf])
  show ?case
  proof (cases "render_item item s")
    case None
    with 1 show ?thesis by (simp del: renderValue.simps)
  next
    case (Some s1)
    with 1 have l: "renderValue item ?m ?s0 = Some (under (tree s) s1)" by simp
    have "frame_post ?m (tree s) ?s0 (under (tree s) s1)"
      by (rule frame_update(2)[rule_format, OF vo pre0 le_refl l])
    then have f1: "fresh_ok (under (tree s) s1)" by (simp add: frame_post_def)
    have u: "under (tree s) s1 = s1\<lparr>tree := tree s @ tree s1\<rparr>" by (simp add: under_def)
    from Cons.IH[OF f1 sv] l Some show ?thesis
      by (simp add: u del: renderValue.simps split: option.splits)
  qed
qed

lemma each_item_texts:
  "list_all (\<lambda>item. \<not> is_template_result item) items \<Longrightarrow>
   each_item items s =
     Some (map (\<lambda>n. [n]) (text_markers (next_id s) items),
           s\<lparr>tree := [], next_id := next_id s + 2 * length items\<rparr>)"
proof (induction items arbitrary: s)
  case Nil
  then show ?case by simp
next
  case (Cons item items)
  from Cons.prems have r: "render_item item s =
      Some (s\<lparr>tree := [Text (next_id s) (text_of item)], next_id := Suc (Suc (next_id s))\<rparr>)"
    by (cases item) (simp_all add: render_item_def Let_def)
  from Cons.prems have "list_all (\<lambda>item. \<not> is_template_result item) items" by simp
  from Cons.IH[OF this] r show ?case by simp
qed

subsection \<open>The expansion\<close>

text \<open>
  Claim C9. Let the resolved value of a node part be an iterable, an Array or another
  object with an iterator that is not a string, of supported items. Then \<^verbatim>\<open>update\<close>
  is the following. The items are rendered in their order, each at a new marker text
  node by the logic of a node part (\<open>each_item\<close>); if one of them fails, so does the
  update. The nested instance recorded at the anchor, if there is one, is cleaned up.
  The segments of the items, concatenated in the order of the items, are put
  immediately after the anchor, and the update goes on with the next part. Putting
  nodes after the anchor makes them the first of the siblings that follow it, before
  the siblings it had, and leaves the anchor the node it was. For an anchor in the tree
  without a nested instance nothing else happens to the tree. For items none of which
  is a template result the segments are one new text node for each item, with the text
  of the item, and rendering them does not fail.
\<close>

theorem iterable_expansion:
  assumes g: "getValue (value_at values vi) = Some (v, es)"
    and it: "items_of v = Some items"
    and f: "fresh_ok s"
    and sup: "list_all supported items"
  shows
    "update_parts ((NodePart i, node) # pairs) values vi s =
       (case each_item items (s\<lparr>console := console s @ es\<rparr>) of
          None \<Rightarrow> None
        | Some (segs, sf) \<Rightarrow>
            (case (case occupant sf node of
                     None \<Rightarrow> Some (sf\<lparr>tree := tree s\<rparr>)
                   | Some inst \<Rightarrow> cleanup node (sf\<lparr>tree := tree s\<rparr>)) of
               None \<Rightarrow> None
             | Some s1 \<Rightarrow>
                 if in_tree node (tree s1)
                 then update_parts pairs values (Suc vi)
                        (s1\<lparr>tree := insertAfter (concat segs) node (tree s1)\<rparr>)
                 else None))
     \<and> (\<forall>root F. siblings_after node (insertAfter F node root) =
                     map_option (\<lambda>r. F @ r) (siblings_after node root)
                   \<and> find_node node (insertAfter F node root) = find_node node root)
     \<and> (occupant s node = None \<and> in_tree node (tree s) \<longrightarrow>
          update_parts ((NodePart i, node) # pairs) values vi s =
            (case each_item items (s\<lparr>console := console s @ es\<rparr>) of
               None \<Rightarrow> None
             | Some (segs, sf) \<Rightarrow>
                 update_parts pairs values (Suc vi)
                   (sf\<lparr>tree := insertAfter (concat segs) node (tree s)\<rparr>)))
     \<and> (list_all (\<lambda>item. \<not> is_template_result item) items \<longrightarrow>
          each_item items (s\<lparr>console := console s @ es\<rparr>) =
            Some (map (\<lambda>n. [n]) (text_markers (next_id s) items),
                  s\<lparr>console := console s @ es, tree := [],
                    next_id := next_id s + 2 * length items\<rparr>))"
proof -
  let ?sc = "s\<lparr>console := console s @ es\<rparr>"
  let ?s0 = "s\<lparr>console := console s @ es, tree := []\<rparr>"
  have f0: "fresh_ok ?s0" using f by (simp add: fresh_ok_def)
  have ri: "render_items items ?s0 =
            map_option (\<lambda>(segs, s2). s2\<lparr>tree := concat segs\<rparr>) (each_item items ?sc)"
    using render_items_each[OF f0 sup] by simp
  have eq: "update_parts ((NodePart i, node) # pairs) values vi s =
       (case each_item items ?sc of
          None \<Rightarrow> None
        | Some (segs, sf) \<Rightarrow>
            (case (case occupant sf node of
                     None \<Rightarrow> Some (sf\<lparr>tree := tree s\<rparr>)
                   | Some inst \<Rightarrow> cleanup node (sf\<lparr>tree := tree s\<rparr>)) of
               None \<Rightarrow> None
             | Some s1 \<Rightarrow>
                 if in_tree node (tree s1)
                 then update_parts pairs values (Suc vi)
                        (s1\<lparr>tree := insertAfter (concat segs) node (tree s1)\<rparr>)
                 else None))"
    using g it ri
    by (simp add: update_parts_Node render_slot_def renderValue_Fragment vacate_def
          del: update_parts.simps renderValue.simps split: option.splits prod.splits)
  have ins: "\<forall>root F. siblings_after node (insertAfter F node root) =
                     map_option (\<lambda>r. F @ r) (siblings_after node root)
                   \<and> find_node node (insertAfter F node root) = find_node node root"
    by (simp add: siblings_after_insertAfter find_node_insertAfter_self)
  have un: "update_parts ((NodePart i, node) # pairs) values vi s =
            (case each_item items ?sc of
               None \<Rightarrow> None
             | Some (segs, sf) \<Rightarrow>
                 update_parts pairs values (Suc vi)
                   (sf\<lparr>tree := insertAfter (concat segs) node (tree s)\<rparr>))"
    if o: "occupant s node = None" and inn: "in_tree node (tree s)"
  proof (cases "each_item items ?sc")
    case None
    with eq show ?thesis by simp
  next
    case (Some r)
    obtain segs sf where r: "r = (segs, sf)" by (cases r)
    from ri Some r have rs: "render_items items ?s0 = Some (sf\<lparr>tree := concat segs\<rparr>)" by simp
    have pre: "frame_pre (next_id s) [] [] ?s0"
      using f by (simp add: frame_pre_def fresh_ok_def occ_big_def)
    have "frame_post (next_id s) [] ?s0 (sf\<lparr>tree := concat segs\<rparr>)"
      by (rule frame_update(3)[rule_format, OF sup pre rs])
    moreover have "node < next_id s" using inn f by (simp add: in_tree_def fresh_ok_def)
    ultimately have "occupant sf node = None" using o by (simp add: frame_post_def)
    with eq Some r inn show ?thesis by simp
  qed
  have tx: "each_item items ?sc =
            Some (map (\<lambda>n. [n]) (text_markers (next_id s) items),
                  s\<lparr>console := console s @ es, tree := [],
                    next_id := next_id s + 2 * length items\<rparr>)"
    if "list_all (\<lambda>item. \<not> is_template_result item) items"
    using each_item_texts[OF that, of ?sc] by simp
  from eq ins un tx show ?thesis by blast
qed

text \<open>
  A \<^verbatim>\<open>Set\<close> of the string a and the result of \<^verbatim>\<open>html`<b>${x}</b>`\<close> with the value x; as a
  string it is \<^verbatim>\<open>[object Set]\<close>, and it is iterated in the order of insertion.
\<close>

definition set_value :: val where
  "set_value = VIterable ''[object Set]'' [VStr ''a'', VResult slot_in_bold [VStr ''x'']]"

text \<open>
  The Array \<^verbatim>\<open>["a", 1, ["b", null, 2]]\<close>: the item that is an Array is not expanded, it is
  written as text.
\<close>

definition array_value :: val where
  "array_value = VArray [VStr ''a'', VOther ''1'', VArray [VStr ''b'', VNull, VOther ''2'']]"

text \<open>
  The slot 101 of \<open>slot_state\<close> given the \<^verbatim>\<open>Set\<close>: the marker 103 with the text a, then the
  marker 105 with the nested instance (the sentinels 111 and 112, the element 107 and
  its slot 109 with the text x), all between the anchor and the sibling 102 it had.
  Given the Array, the markers 103, 105 and 107 with the three texts.
\<close>

lemma iterable_examples:
  "getValue (value_at [set_value] 0) = Some (set_value, [])
   \<and> items_of set_value = Some [VStr ''a'', VResult slot_in_bold [VStr ''x'']]
   \<and> list_all supported [VStr ''a'', VResult slot_in_bold [VStr ''x'']]
   \<and> occupant slot_state 101 = None
   \<and> in_tree 101 (tree slot_state)
   \<and> map_option fst
       (each_item [VStr ''a'', VResult slot_in_bold [VStr ''x'']]
          (slot_state\<lparr>console := console slot_state @ []\<rparr>)) =
     Some [[Text 103 ''a''],
           [Text 105 [], Text 111 [],
            Element 107 ''b'' [] [Text 108 [], Text 109 ''x'', Text 110 []], Text 112 []]]
   \<and> map_option tree (update_parts [(NodePart 1, 101)] [set_value] 0 slot_state) =
     Some [Text 100 [], Text 101 ''old'', Text 103 ''a'', Text 105 [], Text 111 [],
           Element 107 ''b'' [] [Text 108 [], Text 109 ''x'', Text 110 []], Text 112 [],
           Text 102 []]
   \<and> siblings_after 101
       [Text 100 [], Text 101 ''old'', Text 103 ''a'', Text 105 [], Text 111 [],
        Element 107 ''b'' [] [Text 108 [], Text 109 ''x'', Text 110 []], Text 112 [],
        Text 102 []] =
     Some [Text 103 ''a'', Text 105 [], Text 111 [],
           Element 107 ''b'' [] [Text 108 [], Text 109 ''x'', Text 110 []], Text 112 [],
           Text 102 []]
   \<and> getValue (value_at [array_value] 0) = Some (array_value, [])
   \<and> items_of array_value =
     Some [VStr ''a'', VOther ''1'', VArray [VStr ''b'', VNull, VOther ''2'']]
   \<and> list_all supported [VStr ''a'', VOther ''1'', VArray [VStr ''b'', VNull, VOther ''2'']]
   \<and> list_all (\<lambda>item. \<not> is_template_result item)
       [VStr ''a'', VOther ''1'', VArray [VStr ''b'', VNull, VOther ''2'']]
   \<and> text_markers (next_id slot_state)
       [VStr ''a'', VOther ''1'', VArray [VStr ''b'', VNull, VOther ''2'']] =
     [Text 103 ''a'', Text 105 ''1'', Text 107 ''b,,2'']
   \<and> map_option tree (update_parts [(NodePart 1, 101)] [array_value] 0 slot_state) =
     Some [Text 100 [], Text 101 ''old'', Text 103 ''a'', Text 105 ''1'', Text 107 ''b,,2'',
           Text 102 []]"
  by code_simp

lemma slot_state_fresh: "fresh_ok slot_state"
  by (simp add: fresh_ok_def slot_state_def empty_state_def)

theorem iterable_expansion_witness:
  "getValue (value_at [set_value] 0) = Some (set_value, [])
   \<and> items_of set_value = Some [VStr ''a'', VResult slot_in_bold [VStr ''x'']]
   \<and> fresh_ok slot_state
   \<and> list_all supported [VStr ''a'', VResult slot_in_bold [VStr ''x'']]
   \<and> occupant slot_state 101 = None
   \<and> in_tree 101 (tree slot_state)
   \<and> update_parts [(NodePart 1, 101)] [set_value] 0 slot_state =
     (case each_item [VStr ''a'', VResult slot_in_bold [VStr ''x'']]
             (slot_state\<lparr>console := console slot_state @ []\<rparr>) of
        None \<Rightarrow> None
      | Some (segs, sf) \<Rightarrow>
          update_parts [] [set_value] (Suc 0)
            (sf\<lparr>tree := insertAfter (concat segs) 101 (tree slot_state)\<rparr>))
   \<and> map_option fst
       (each_item [VStr ''a'', VResult slot_in_bold [VStr ''x'']]
          (slot_state\<lparr>console := console slot_state @ []\<rparr>)) =
     Some [[Text 103 ''a''],
           [Text 105 [], Text 111 [],
            Element 107 ''b'' [] [Text 108 [], Text 109 ''x'', Text 110 []], Text 112 []]]
   \<and> map_option tree (update_parts [(NodePart 1, 101)] [set_value] 0 slot_state) =
     Some [Text 100 [], Text 101 ''old'', Text 103 ''a'', Text 105 [], Text 111 [],
           Element 107 ''b'' [] [Text 108 [], Text 109 ''x'', Text 110 []], Text 112 [],
           Text 102 []]
   \<and> getValue (value_at [array_value] 0) = Some (array_value, [])
   \<and> items_of array_value =
     Some [VStr ''a'', VOther ''1'', VArray [VStr ''b'', VNull, VOther ''2'']]
   \<and> each_item [VStr ''a'', VOther ''1'', VArray [VStr ''b'', VNull, VOther ''2'']]
       (slot_state\<lparr>console := console slot_state @ []\<rparr>) =
     Some (map (\<lambda>n. [n]) [Text 103 ''a'', Text 105 ''1'', Text 107 ''b,,2''],
           slot_state\<lparr>console := console slot_state @ [], tree := [],
             next_id := next_id slot_state +
               2 * length [VStr ''a'', VOther ''1'', VArray [VStr ''b'', VNull, VOther ''2'']]\<rparr>)
   \<and> map_option tree (update_parts [(NodePart 1, 101)] [array_value] 0 slot_state) =
     Some [Text 100 [], Text 101 ''old'', Text 103 ''a'', Text 105 ''1'', Text 107 ''b,,2'',
           Text 102 []]"
proof -
  note e = iterable_examples
  from e have g: "getValue (value_at [set_value] 0) = Some (set_value, [])"
    and it: "items_of set_value = Some [VStr ''a'', VResult slot_in_bold [VStr ''x'']]"
    and sup: "list_all supported [VStr ''a'', VResult slot_in_bold [VStr ''x'']]"
    and o: "occupant slot_state 101 = None" and inn: "in_tree 101 (tree slot_state)"
    and g2: "getValue (value_at [array_value] 0) = Some (array_value, [])"
    and it2: "items_of array_value =
       Some [VStr ''a'', VOther ''1'', VArray [VStr ''b'', VNull, VOther ''2'']]"
    and sup2: "list_all supported
       [VStr ''a'', VOther ''1'', VArray [VStr ''b'', VNull, VOther ''2'']]"
    and pl: "list_all (\<lambda>item. \<not> is_template_result item)
       [VStr ''a'', VOther ''1'', VArray [VStr ''b'', VNull, VOther ''2'']]"
    and tm: "text_markers (next_id slot_state)
       [VStr ''a'', VOther ''1'', VArray [VStr ''b'', VNull, VOther ''2'']] =
     [Text 103 ''a'', Text 105 ''1'', Text 107 ''b,,2'']"
    by blast+
  note t = iterable_expansion[OF g it slot_state_fresh sup, of 1 101 "[]"]
  note u = iterable_expansion[OF g2 it2 slot_state_fresh sup2, of 1 101 "[]", unfolded tm]
  from t o inn have 1: "update_parts [(NodePart 1, 101)] [set_value] 0 slot_state =
     (case each_item [VStr ''a'', VResult slot_in_bold [VStr ''x'']]
             (slot_state\<lparr>console := console slot_state @ []\<rparr>) of
        None \<Rightarrow> None
      | Some (segs, sf) \<Rightarrow>
          update_parts [] [set_value] (Suc 0)
            (sf\<lparr>tree := insertAfter (concat segs) 101 (tree slot_state)\<rparr>))"
    by blast
  from u pl have 2: "each_item [VStr ''a'', VOther ''1'', VArray [VStr ''b'', VNull, VOther ''2'']]
       (slot_state\<lparr>console := console slot_state @ []\<rparr>) =
     Some (map (\<lambda>n. [n]) [Text 103 ''a'', Text 105 ''1'', Text 107 ''b,,2''],
           slot_state\<lparr>console := console slot_state @ [], tree := [],
             next_id := next_id slot_state +
               2 * length [VStr ''a'', VOther ''1'', VArray [VStr ''b'', VNull, VOther ''2'']]\<rparr>)"
    by blast
  from e slot_state_fresh 1 2 show ?thesis by blast
qed

section \<open>The anchors of an instance\<close>

subsection \<open>The nodes made before a given one\<close>

text \<open>
  The nodes made before \<open>b\<close> and their arrangement: the tree without the nodes whose
  identity is \<open>b\<close> or more, and without texts and attributes. Two trees with the same
  skeleton have the same nodes made before \<open>b\<close>, with the same parents and in the
  same order.
\<close>

fun skel :: "node_id \<Rightarrow> node list \<Rightarrow> node list" where
  "skel b [] = []"
| "skel b (Element i t a cs # ns) =
     (if b \<le> i then skel b ns else Element i t [] (skel b cs) # skel b ns)"
| "skel b (Text i d # ns) = (if b \<le> i then skel b ns else Text i [] # skel b ns)"
| "skel b (Comment i d # ns) = (if b \<le> i then skel b ns else Comment i [] # skel b ns)"

text \<open>
  The identities of the nodes that are not text nodes.
\<close>

fun other_ids :: "node list \<Rightarrow> node_id list" where
  "other_ids [] = []"
| "other_ids (Element i t a cs # ns) = i # other_ids cs @ other_ids ns"
| "other_ids (Text i d # ns) = other_ids ns"
| "other_ids (Comment i d # ns) = i # other_ids ns"

text \<open>
  Among the siblings \<open>ns\<close> there is the node \<open>e\<close>, and every sibling before it was
  made from \<open>lo\<close> on.
\<close>

fun bounded :: "node_id \<Rightarrow> node_id \<Rightarrow> node list \<Rightarrow> bool" where
  "bounded e lo [] = False"
| "bounded e lo (n # ns) = (nid n = e \<or> (lo \<le> nid n \<and> bounded e lo ns))"

text \<open>
  Wherever the node \<open>st\<close> stands in the tree, the siblings that follow it are bounded
  by \<open>e\<close>: the loop of \<^verbatim>\<open>_cleanup\<close> that starts at \<open>st\<close> stops before \<open>e\<close>, and
  the siblings it removes were made from \<open>lo\<close> on.
\<close>

fun runs_ok :: "node_id \<Rightarrow> node_id \<Rightarrow> node_id \<Rightarrow> node list \<Rightarrow> bool" where
  "runs_ok st e lo [] = True"
| "runs_ok st e lo (Element i t a cs # ns) =
     ((i = st \<longrightarrow> bounded e lo ns) \<and> runs_ok st e lo cs \<and> runs_ok st e lo ns)"
| "runs_ok st e lo (Text i d # ns) = ((i = st \<longrightarrow> bounded e lo ns) \<and> runs_ok st e lo ns)"
| "runs_ok st e lo (Comment i d # ns) = ((i = st \<longrightarrow> bounded e lo ns) \<and> runs_ok st e lo ns)"

lemma skel_append [simp]: "skel b (xs @ ys) = skel b xs @ skel b ys"
  by (induction b xs rule: skel.induct) auto

lemma other_ids_append [simp]: "other_ids (xs @ ys) = other_ids xs @ other_ids ys"
  by (induction xs rule: other_ids.induct) auto











lemma other_ids_put_attribute [simp]: "other_ids (put_attribute x name v T) = other_ids T"
  by (induction x name v T rule: put_attribute.induct) auto






subsection \<open>Runs\<close>













subsection \<open>The range of a nested instance under cleanup\<close>





subsection \<open>The instances recorded at the nodes an update visits\<close>

text \<open>
  The first identity of the clone of an instance made by \<^verbatim>\<open>_getFragment\<close>: the start
  sentinel is made right after the nodes of the clone.
\<close>

definition lo :: "template_instance \<Rightarrow> node_id" where
  "lo inst =
     (case startNode inst of
        None \<Rightarrow> 0
      | Some st \<Rightarrow> st - length (nodes (content (i_template inst))))"

text \<open>
  An instance as \<^verbatim>\<open>_getFragment\<close> makes it: the two sentinels were made one after the
  other, before \<open>nxt\<close>, and the clone and the nodes of the parts from \<open>b\<close> on.
\<close>

definition entry_ok :: "node_id \<Rightarrow> node_id \<Rightarrow> template_instance \<Rightarrow> bool" where
  "entry_ok b nxt inst =
     (case startNode inst of
        None \<Rightarrow> False
      | Some st \<Rightarrow>
          endNode inst = Some (Suc st) \<and> b \<le> lo inst \<and> lo inst \<le> st \<and> Suc st < nxt \<and>
          beyond b (i_parts inst))"

text \<open>
  The range of the instance is bounded in the tree.
\<close>

definition runs :: "template_instance \<Rightarrow> node list \<Rightarrow> bool" where
  "runs inst T =
     (case startNode inst of
        None \<Rightarrow> True
      | Some st \<Rightarrow> runs_ok st (Suc st) (lo inst) T)"

text \<open>
  Two instances made one after the other: the clone and the sentinels of one were all
  made before the clone of the other.
\<close>

definition apart :: "template_instance \<Rightarrow> template_instance \<Rightarrow> bool" where
  "apart J K =
     (case startNode J of
        None \<Rightarrow> True
      | Some sj \<Rightarrow>
          (case startNode K of
             None \<Rightarrow> True
           | Some sk \<Rightarrow> Suc sj < lo K \<or> Suc sk < lo J))"

text \<open>
  What holds of the instances recorded at the nodes made from \<open>y\<close> on, the only
  records that an update of parts bound from \<open>y\<close> on reads: the instances were made
  from \<open>b\<close> on, their ranges are bounded in the tree, and they were made one after
  the other. Nothing is asked of the records at older nodes.
\<close>

definition runs_inv :: "node_id \<Rightarrow> node_id \<Rightarrow> state \<Rightarrow> bool" where
  "runs_inv y b s =
     (y \<le> b \<and> b \<le> next_id s \<and>
      (\<forall>i \<in> set (ids (tree s)). i < next_id s) \<and>
      (\<forall>a J. y \<le> a \<longrightarrow> occupant s a = Some J \<longrightarrow>
         entry_ok b (next_id s) J \<and> runs J (tree s)) \<and>
      (\<forall>a a' J K. y \<le> a \<longrightarrow> y \<le> a' \<longrightarrow> a \<noteq> a' \<longrightarrow>
         occupant s a = Some J \<longrightarrow> occupant s a' = Some K \<longrightarrow> apart J K))"

text \<open>
  What a step leaves: the invariant; the skeleton of the nodes made before \<open>b\<close>; the
  records at the nodes from \<open>y\<close> on that it found, or instances made from \<open>c\<close> on;
  the nodes it found, or nodes made from \<open>c\<close> on.
\<close>

definition post :: "node_id \<Rightarrow> node_id \<Rightarrow> node_id \<Rightarrow> state \<Rightarrow> state \<Rightarrow> bool" where
  "post y b c s s' =
     (runs_inv y b s' \<and> skel b (tree s') = skel b (tree s) \<and> next_id s \<le> next_id s' \<and>
      (\<forall>a J. y \<le> a \<longrightarrow> occupant s' a = Some J \<longrightarrow> occupant s a = Some J \<or> c \<le> lo J) \<and>
      (\<forall>i \<in> set (ids (tree s')). i \<in> set (ids (tree s)) \<or> c \<le> i) \<and>
      (\<forall>i \<in> set (other_ids (tree s')). i \<in> set (other_ids (tree s)) \<or> c \<le> i))"



lemma post_mono: "post y b c' s s' \<Longrightarrow> c \<le> c' \<Longrightarrow> post y b c s s'"
  unfolding post_def by (intro conjI) (simp, simp, simp, meson le_trans, meson le_trans, meson le_trans)


lemma inv_console [simp]: "runs_inv y b (s\<lparr>console := x\<rparr>) = runs_inv y b s"
  by (simp add: runs_inv_def)

lemma post_console: "runs_inv y b s \<Longrightarrow> post y b c s (s\<lparr>console := x\<rparr>)"
  by (simp add: post_def)










lemma runs_Nil [simp]: "runs J []"
  by (simp add: runs_def split: option.splits)









subsection \<open>The steps of an update\<close>






text \<open>
  The nodes of the node parts that were made before \<open>b\<close> are not elements or comments
  of the tree: a write to \<^verbatim>\<open>textContent\<close> at them removes no node.
\<close>

definition text_anchors :: "node_id \<Rightarrow> (part \<times> node_id) list \<Rightarrow> node list \<Rightarrow> bool" where
  "text_anchors b pairs T =
     (\<forall>(p, x) \<in> set pairs. \<not> is_attribute p \<longrightarrow> b \<le> x \<or> x \<notin> set (other_ids T))"


lemma text_anchors_Nil [simp]: "text_anchors b [] T"
  by (simp add: text_anchors_def)

lemma text_anchors_Node [simp]:
  "text_anchors b ((NodePart i, x) # pairs) T \<longleftrightarrow>
     (b \<le> x \<or> x \<notin> set (other_ids T)) \<and> text_anchors b pairs T"
  by (simp add: text_anchors_def)

lemma text_anchors_Attribute [simp]:
  "text_anchors b ((AttributePart i name strings, x) # pairs) T \<longleftrightarrow> text_anchors b pairs T"
  by (simp add: text_anchors_def)


lemma text_anchors_put_attribute [simp]:
  "text_anchors b pairs (put_attribute x name v T) = text_anchors b pairs T"
  by (simp add: text_anchors_def)








subsection \<open>An update keeps the nodes made before it\<close>


subsection \<open>Sequences of updates\<close>













text \<open>
  The template of \<^verbatim>\<open>html`<p class="${c}">${x}</p>`\<close>, with an attribute part and a node
  part.
\<close>

definition paragraph_template :: template where
  "paragraph_template =
     \<lparr>tid = 5, parts = [AttributePart 0 ''class'' [[], []], NodePart 2],
      content = [Element 0 ''p'' [(''class'', ''{{}}'')] [Text 2 [], Text 3 [], Text 4 []]]\<rparr>"

lemma paragraph_template_compiled:
  "new_Template 5 [Element 0 ''p'' [(''class'', ''{{}}'')] [Text 1 ''{{}}'']] =
     Some paragraph_template"
  unfolding paragraph_template_def by code_simp





end
